theory Spec2Isabelle
  imports Main "HOL-Library.Sublist"
begin

section \<open>Text and literal replacement\<close>

text \<open>
  The script \<^verbatim>\<open>fix_viewmodel.py\<close> reads one file as text, applies two literal
  \<^verbatim>\<open>str.replace\<close> calls and writes the text back. A Python \<^verbatim>\<open>str\<close> is a
  sequence of Unicode code points, so a text is a list of code points; a file on disk is
  a list of bytes.
\<close>

type_synonym str = "nat list"
type_synonym bytes = "nat list"

text \<open>The code points of an ASCII literal.\<close>

definition asc :: "string \<Rightarrow> str" where
  "asc s = map of_char s"

abbreviation NL :: str where
  "NL \<equiv> [0x0A]"

text \<open>
  \<^verbatim>\<open>s.replace(old, new)\<close> for a non-empty \<^verbatim>\<open>old\<close>: scan from the left; where
  \<^verbatim>\<open>old\<close> starts, emit \<^verbatim>\<open>new\<close> and go on after the occurrence, otherwise emit the
  character and go on with the next one. So the occurrences replaced are the leftmost
  non-overlapping ones, all of them.
\<close>

fun replace_from :: "'a list \<Rightarrow> 'a list \<Rightarrow> 'a list \<Rightarrow> 'a list" where
  "replace_from old new [] = []"
| "replace_from old new (c # s) =
     (if prefix old (c # s) then new @ replace_from old new (drop (length old - 1) s)
      else c # replace_from old new s)"

text \<open>
  \<^verbatim>\<open>str.replace\<close>, with the receiver first as in Python. An empty \<^verbatim>\<open>old\<close> matches
  before every character and at the end.
\<close>

definition replace :: "'a list \<Rightarrow> 'a list \<Rightarrow> 'a list \<Rightarrow> 'a list" where
  "replace s old new =
     (if old = [] then new @ concat (map (\<lambda>c. c # new) s) else replace_from old new s)"

subsection \<open>The two rules of the script\<close>

definition old_notif :: str where
  \<open>old_notif =
     asc ''            var message = action.ActionType switch'' @ NL @
     asc ''            {'' @ NL @
     asc ''                FileActionType.CopyUrl => "URL copi'' @ [0xE9] @ asc ''e",'' @ NL @
     asc ''                FileActionType.Delete => "Envoy'' @ [0xE9] @ asc '' '' @ [0xE0] @ asc '' la corbeille",'' @ NL @
     asc ''                _ => null'' @ NL @
     asc ''            };''\<close>

definition new_notif :: str where
  \<open>new_notif =
     asc ''            var message = action.ActionType switch'' @ NL @
     asc ''            {'' @ NL @
     asc ''                FileActionType.CopyUrl => "'' @ [0x1F517] @ asc '' URL copi'' @ [0xE9] @ asc ''e",'' @ NL @
     asc ''                FileActionType.CopyPath => "'' @ [0x1F4CB] @ asc '' Chemin copi'' @ [0xE9] @ asc ''",'' @ NL @
     asc ''                FileActionType.CopyName => "'' @ [0x1F4CB] @ asc '' Nom copi'' @ [0xE9] @ asc ''",'' @ NL @
     asc ''                FileActionType.Compress => "'' @ [0x1F5DC, 0xFE0F] @ asc '' Archive ZIP cr'' @ [0xE9, 0xE9] @ asc ''e",'' @ NL @
     asc ''                FileActionType.SendByEmail => "'' @ [0x1F4E7] @ asc '' Email en cours...",'' @ NL @
     asc ''                FileActionType.Delete => "'' @ [0x1F5D1, 0xFE0F] @ asc '' Envoy'' @ [0xE9] @ asc '' '' @ [0xE0] @ asc '' la corbeille",'' @ NL @
     asc ''                _ => null'' @ NL @
     asc ''            };''\<close>

definition old_close :: str where
  \<open>old_close =
     asc ''            // Fermer apr'' @ [0xE8] @ asc ''s certaines actions'' @ NL @
     asc ''            if (action.ActionType is FileActionType.Open '' @ NL @
     asc ''                or FileActionType.RunAsAdmin '' @ NL @
     asc ''                or FileActionType.OpenPrivate)'' @ NL @
     asc ''            {'' @ NL @
     asc ''                _indexingService.RecordUsage(result);'' @ NL @
     asc ''                RequestHide?.Invoke(this, EventArgs.Empty);'' @ NL @
     asc ''            }'' @ NL @
     asc ''        }'' @ NL @
     asc ''        '' @ NL @
     asc ''        ShowActionsPanel = false;'' @ NL @
     asc ''    }''\<close>

definition new_close :: str where
  \<open>new_close =
     asc ''            // Fermer apr'' @ [0xE8] @ asc ''s les actions qui ouvrent quelque chose'' @ NL @
     asc ''            if (action.ActionType is FileActionType.Open '' @ NL @
     asc ''                or FileActionType.RunAsAdmin '' @ NL @
     asc ''                or FileActionType.OpenPrivate'' @ NL @
     asc ''                or FileActionType.OpenWith'' @ NL @
     asc ''                or FileActionType.OpenLocation'' @ NL @
     asc ''                or FileActionType.OpenInTerminal'' @ NL @
     asc ''                or FileActionType.OpenInExplorer'' @ NL @
     asc ''                or FileActionType.OpenInVSCode'' @ NL @
     asc ''                or FileActionType.EditInEditor'' @ NL @
     asc ''                or FileActionType.SendByEmail)'' @ NL @
     asc ''            {'' @ NL @
     asc ''                _indexingService.RecordUsage(result);'' @ NL @
     asc ''                RequestHide?.Invoke(this, EventArgs.Empty);'' @ NL @
     asc ''            }'' @ NL @
     asc ''        }'' @ NL @
     asc ''        else'' @ NL @
     asc ''        {'' @ NL @
     asc ''            if (action.ActionType == FileActionType.OpenInVSCode)'' @ NL @
     asc ''                ShowNotification?.Invoke(this, "'' @ [0x274C] @ asc '' VS Code introuvable");'' @ NL @
     asc ''        }'' @ NL @
     asc ''        '' @ NL @
     asc ''        ShowActionsPanel = false;'' @ NL @
     asc ''    }''\<close>

text \<open>
  The two assignments \<^verbatim>\<open>content = content.replace(old_notif, new_notif)\<close> and
  \<^verbatim>\<open>content = content.replace(old_close, new_close)\<close>, as steps on the variable
  \<^verbatim>\<open>content\<close>, and the script's whole effect on it.
\<close>

definition fix1 :: "str \<Rightarrow> str" where
  "fix1 content = replace content old_notif new_notif"

definition fix2 :: "str \<Rightarrow> str" where
  "fix2 content = replace content old_close new_close"

definition patch :: "str \<Rightarrow> str" where
  "patch content = fix2 (fix1 content)"

subsection \<open>Parts of the patterns that the scenarios name\<close>

text \<open>
  Lines of \<open>old_notif\<close> and \<open>new_notif\<close>, and the condition and the added branch of
  \<open>new_close\<close>, each without its final line break.
\<close>

definition old_delete_line :: str where
  \<open>old_delete_line =
     asc ''                FileActionType.Delete => "Envoy'' @ [0xE9] @ asc '' '' @ [0xE0] @ asc '' la corbeille",''\<close>

definition new_delete_line :: str where
  \<open>new_delete_line =
     asc ''                FileActionType.Delete => "'' @ [0x1F5D1, 0xFE0F] @ asc '' Envoy'' @ [0xE9] @ asc '' '' @ [0xE0] @ asc '' la corbeille",''\<close>

definition copy_path_line :: str where
  \<open>copy_path_line =
     asc ''                FileActionType.CopyPath => "'' @ [0x1F4CB] @ asc '' Chemin copi'' @ [0xE9] @ asc ''",''\<close>

definition copy_name_line :: str where
  \<open>copy_name_line =
     asc ''                FileActionType.CopyName => "'' @ [0x1F4CB] @ asc '' Nom copi'' @ [0xE9] @ asc ''",''\<close>

definition compress_line :: str where
  \<open>compress_line =
     asc ''                FileActionType.Compress => "'' @ [0x1F5DC, 0xFE0F] @ asc '' Archive ZIP cr'' @ [0xE9, 0xE9] @ asc ''e",''\<close>

definition send_by_email_line :: str where
  \<open>send_by_email_line =
     asc ''                FileActionType.SendByEmail => "'' @ [0x1F4E7] @ asc '' Email en cours...",''\<close>

definition new_condition :: str where
  \<open>new_condition =
     asc ''            if (action.ActionType is FileActionType.Open '' @ NL @
     asc ''                or FileActionType.RunAsAdmin '' @ NL @
     asc ''                or FileActionType.OpenPrivate'' @ NL @
     asc ''                or FileActionType.OpenWith'' @ NL @
     asc ''                or FileActionType.OpenLocation'' @ NL @
     asc ''                or FileActionType.OpenInTerminal'' @ NL @
     asc ''                or FileActionType.OpenInExplorer'' @ NL @
     asc ''                or FileActionType.OpenInVSCode'' @ NL @
     asc ''                or FileActionType.EditInEditor'' @ NL @
     asc ''                or FileActionType.SendByEmail)''\<close>

definition else_branch :: str where
  \<open>else_branch =
     asc ''        else'' @ NL @
     asc ''        {'' @ NL @
     asc ''            if (action.ActionType == FileActionType.OpenInVSCode)'' @ NL @
     asc ''                ShowNotification?.Invoke(this, "'' @ [0x274C] @ asc '' VS Code introuvable");'' @ NL @
     asc ''        }''\<close>

subsection \<open>How occurrences of two patterns can meet\<close>

text \<open>Some non-empty suffix of \<open>xs\<close> is a prefix of \<open>ys\<close>.\<close>

fun overlap :: "'a list \<Rightarrow> 'a list \<Rightarrow> bool" where
  "overlap [] ys = False"
| "overlap (x # xs) ys = (prefix (x # xs) ys \<or> overlap xs ys)"

text \<open>
  In no text can an occurrence of \<open>p\<close> and an occurrence of \<open>q\<close> share a position:
  neither contains the other and neither ends where the other begins.
\<close>

definition apart :: "'a list \<Rightarrow> 'a list \<Rightarrow> bool" where
  "apart p q = (\<not> sublist p q \<and> \<not> sublist q p \<and> \<not> overlap p q \<and> \<not> overlap q p)"

text \<open>\<^verbatim>\<open>sep.join(parts)\<close>.\<close>

fun join :: "'a list \<Rightarrow> 'a list list \<Rightarrow> 'a list" where
  "join sep [] = []"
| "join sep [g] = g"
| "join sep (g # h # gs) = g @ sep @ join sep (h # gs)"

text \<open>
  \<^verbatim>\<open>s.split(sep)\<close> for a non-empty \<^verbatim>\<open>sep\<close>: the pieces of \<open>s\<close> between the
  occurrences of \<open>sep\<close> that a scan from the left finds; \<open>acc\<close> holds the piece
  being read, in reverse.
\<close>

fun split_from :: "'a list \<Rightarrow> 'a list \<Rightarrow> 'a list \<Rightarrow> 'a list list" where
  "split_from sep acc [] = [rev acc]"
| "split_from sep acc (c # s) =
     (if prefix sep (c # s) then rev acc # split_from sep [] (drop (length sep - 1) s)
      else split_from sep (c # acc) s)"

definition pieces :: "'a list \<Rightarrow> 'a list \<Rightarrow> 'a list list" where
  "pieces s sep = split_from sep [] s"

text \<open>The edits of one character: one more at index \<open>i\<close>, or the one at index \<open>i\<close> gone.\<close>

definition insert_at :: "nat \<Rightarrow> 'a \<Rightarrow> 'a list \<Rightarrow> 'a list" where
  "insert_at i w xs = take i xs @ w # drop i xs"

definition delete_at :: "nat \<Rightarrow> 'a list \<Rightarrow> 'a list" where
  "delete_at i xs = take i xs @ drop (Suc i) xs"

definition SPACE :: nat where
  "SPACE = 0x20"

section \<open>The file\<close>

subsection \<open>The codec \<^verbatim>\<open>utf-8-sig\<close>\<close>

text \<open>
  Python's strict UTF-8 decoder: shortest forms only, no surrogates, nothing above
  U+10FFFF; any other byte sequence raises \<^verbatim>\<open>UnicodeDecodeError\<close> (\<open>None\<close>).
\<close>

definition is_cont :: "nat \<Rightarrow> bool" where
  "is_cont b = (0x80 \<le> b \<and> b < 0xC0)"

fun utf8_decode :: "bytes \<Rightarrow> str option" where
  "utf8_decode [] = Some []"
| "utf8_decode (b0 # bs) =
     (if b0 < 0x80 then map_option ((#) b0) (utf8_decode bs)
      else if b0 < 0xC2 then None
      else if b0 < 0xE0 then
        (case bs of
           b1 # r \<Rightarrow>
             if is_cont b1
             then map_option ((#) (b0 mod 0x20 * 0x40 + b1 mod 0x40)) (utf8_decode r)
             else None
         | _ \<Rightarrow> None)
      else if b0 < 0xF0 then
        (case bs of
           b1 # b2 # r \<Rightarrow>
             if is_cont b1 \<and> is_cont b2
                \<and> \<not> (b0 = 0xE0 \<and> b1 < 0xA0) \<and> \<not> (b0 = 0xED \<and> 0xA0 \<le> b1)
             then map_option ((#) (b0 mod 0x10 * 0x1000 + b1 mod 0x40 * 0x40 + b2 mod 0x40))
                    (utf8_decode r)
             else None
         | _ \<Rightarrow> None)
      else if b0 < 0xF5 then
        (case bs of
           b1 # b2 # b3 # r \<Rightarrow>
             if is_cont b1 \<and> is_cont b2 \<and> is_cont b3
                \<and> \<not> (b0 = 0xF0 \<and> b1 < 0x90) \<and> \<not> (b0 = 0xF4 \<and> 0x90 \<le> b1)
             then map_option
                    ((#) (b0 mod 0x08 * 0x40000 + b1 mod 0x40 * 0x1000 + b2 mod 0x40 * 0x40
                          + b3 mod 0x40))
                    (utf8_decode r)
             else None
         | _ \<Rightarrow> None)
      else None)"

text \<open>
  The encoder raises \<^verbatim>\<open>UnicodeEncodeError\<close> on a surrogate; a value from U+110000
  on is no code point of a \<^verbatim>\<open>str\<close> at all.
\<close>

definition utf8_encode_char :: "nat \<Rightarrow> bytes option" where
  "utf8_encode_char c =
     (if c < 0x80 then Some [c]
      else if c < 0x800 then Some [0xC0 + c div 0x40, 0x80 + c mod 0x40]
      else if c < 0x10000 then
        (if 0xD800 \<le> c \<and> c < 0xE000 then None
         else Some [0xE0 + c div 0x1000, 0x80 + c div 0x40 mod 0x40, 0x80 + c mod 0x40])
      else if c < 0x110000 then
        Some [0xF0 + c div 0x40000, 0x80 + c div 0x1000 mod 0x40, 0x80 + c div 0x40 mod 0x40,
              0x80 + c mod 0x40]
      else None)"

fun utf8_encode :: "str \<Rightarrow> bytes option" where
  "utf8_encode [] = Some []"
| "utf8_encode (c # cs) =
     (case utf8_encode_char c of
        None \<Rightarrow> None
      | Some b \<Rightarrow> map_option ((@) b) (utf8_encode cs))"

text \<open>The code points that the encoder accepts.\<close>

definition encodable :: "nat \<Rightarrow> bool" where
  "encodable c = (utf8_encode_char c \<noteq> None)"

definition BOM :: bytes where
  "BOM = [0xEF, 0xBB, 0xBF]"

text \<open>
  \<^verbatim>\<open>utf-8-sig\<close>, as the incremental decoder behind \<^verbatim>\<open>open\<close> reads a whole file:
  data of three bytes or more loses a byte-order mark at its start; shorter data that
  is the beginning of a mark (nothing, \<^verbatim>\<open>EF\<close>, or \<^verbatim>\<open>EF BB\<close>) is held back for a
  next call that never comes, and the text is empty; any other data is decoded as it is.
  The encoder writes a mark before the first data, whatever the data.
\<close>

definition utf8_sig_decode :: "bytes \<Rightarrow> str option" where
  "utf8_sig_decode b =
     (if length b < 3 then (if prefix b BOM then Some [] else utf8_decode b)
      else if take 3 b = BOM then utf8_decode (drop 3 b)
      else utf8_decode b)"

definition utf8_sig_encode :: "str \<Rightarrow> bytes option" where
  "utf8_sig_encode t = map_option ((@) BOM) (utf8_encode t)"

subsection \<open>Line ends in text mode\<close>

text \<open>
  Both \<^verbatim>\<open>open\<close> calls leave \<^verbatim>\<open>newline\<close> at its default. Reading then turns
  \<^verbatim>\<open>\r\n\<close> and a lone \<^verbatim>\<open>\r\<close> into \<^verbatim>\<open>\n\<close>; writing turns \<^verbatim>\<open>\n\<close> into
  \<^verbatim>\<open>os.linesep\<close>, which depends on the platform.
\<close>

datatype platform = Posix | Windows

definition CR :: nat where
  "CR = 0x0D"

definition LF :: nat where
  "LF = 0x0A"

definition nl_read :: "str \<Rightarrow> str" where
  "nl_read t = replace (replace t [CR, LF] [LF]) [CR] [LF]"

fun nl_write :: "platform \<Rightarrow> str \<Rightarrow> str" where
  "nl_write Posix t = t"
| "nl_write Windows t = replace t [LF] [CR, LF]"

text \<open>
  A text whose line ends are those of the platform already: no \<^verbatim>\<open>\r\<close> at all on
  Posix, \<^verbatim>\<open>\r\<close> and \<^verbatim>\<open>\n\<close> only as the pair \<^verbatim>\<open>\r\n\<close> on Windows.
\<close>

fun crlf_only :: "str \<Rightarrow> bool" where
  "crlf_only [] = True"
| "crlf_only [c] = (c \<noteq> CR \<and> c \<noteq> LF)"
| "crlf_only (c # d # r) =
     (if c = CR \<and> d = LF then crlf_only r else c \<noteq> CR \<and> c \<noteq> LF \<and> crlf_only (d # r))"

fun native_newlines :: "platform \<Rightarrow> str \<Rightarrow> bool" where
  "native_newlines Posix t = (CR \<notin> set t)"
| "native_newlines Windows t = crlf_only t"

subsection \<open>The run of the script\<close>

text \<open>
  What the script can see and change: the file at the fixed \<^verbatim>\<open>file_path\<close> (\<open>None\<close>
  when there is no such file), whether it can be opened for writing, how often it has
  been overwritten, and the standard output. A file that exists and cannot be opened for
  reading is not part of the model. The module \<^verbatim>\<open>re\<close> is imported and never used.
  A run that raises an exception is the exception alone: what the file holds after it is
  not part of the model.
\<close>

record world =
  disk :: "bytes option"
  writable :: bool
  writes :: nat
  stdout :: str

datatype error = FileNotFoundError | PermissionError | UnicodeDecodeError | UnicodeEncodeError

text \<open>\<^verbatim>\<open>with open(file_path, 'r', encoding='utf-8-sig') as f: content = f.read()\<close>\<close>

definition read_file :: "world \<Rightarrow> error + str" where
  "read_file w =
     (case disk w of
        None \<Rightarrow> Inl FileNotFoundError
      | Some b \<Rightarrow>
          (case utf8_sig_decode b of
             None \<Rightarrow> Inl UnicodeDecodeError
           | Some t \<Rightarrow> Inr (nl_read t)))"

text \<open>\<^verbatim>\<open>with open(file_path, 'w', encoding='utf-8-sig') as f: f.write(content)\<close>\<close>

definition write_file :: "platform \<Rightarrow> str \<Rightarrow> world \<Rightarrow> error + world" where
  "write_file pf content w =
     (if \<not> writable w then Inl PermissionError
      else
        (case utf8_sig_encode (nl_write pf content) of
           None \<Rightarrow> Inl UnicodeEncodeError
         | Some b \<Rightarrow> Inr (w\<lparr>disk := Some b, writes := writes w + 1\<rparr>)))"

text \<open>\<^verbatim>\<open>print("ViewModel updated successfully")\<close>\<close>

definition print_done :: "world \<Rightarrow> world" where
  "print_done w = w\<lparr>stdout := stdout w @ asc ''ViewModel updated successfully'' @ NL\<rparr>"

text \<open>The script from top to bottom; an exception ends it.\<close>

definition run :: "platform \<Rightarrow> world \<Rightarrow> error + world" where
  "run pf w =
     (case read_file w of
        Inl e \<Rightarrow> Inl e
      | Inr content \<Rightarrow>
          (let content = replace content old_notif new_notif;
               content = replace content old_close new_close
           in case write_file pf content w of
                Inl e \<Rightarrow> Inl e
              | Inr w' \<Rightarrow> Inr (print_done w')))"

section \<open>Properties of literal replacement\<close>

lemma overlap_iff: "overlap xs ys \<longleftrightarrow> (\<exists>w. w \<noteq> [] \<and> suffix w xs \<and> prefix w ys)"
proof (induction xs)
  case Nil
  then show ?case by simp
next
  case (Cons x xs)
  show ?case
  proof
    assume "overlap (x # xs) ys"
    then consider "prefix (x # xs) ys" | "overlap xs ys" by auto
    then show "\<exists>w. w \<noteq> [] \<and> suffix w (x # xs) \<and> prefix w ys"
    proof cases
      case 1
      then show ?thesis by (intro exI[of _ "x # xs"]) simp
    next
      case 2
      with Cons.IH obtain w where "w \<noteq> []" "suffix w xs" "prefix w ys" by blast
      then show ?thesis by (intro exI[of _ w]) (simp add: suffix_ConsI)
    qed
  next
    assume "\<exists>w. w \<noteq> [] \<and> suffix w (x # xs) \<and> prefix w ys"
    then obtain w where w: "w \<noteq> []" "suffix w (x # xs)" "prefix w ys" by blast
    from w(2) have "w = x # xs \<or> suffix w xs" by (simp add: suffix_Cons)
    with w Cons.IH show "overlap (x # xs) ys" by auto
  qed
qed

lemma replace_from_hit:
  "old \<noteq> [] \<Longrightarrow> replace_from old new (old @ s) = new @ replace_from old new s"
  by (cases old) simp_all

lemma drop_hit: "prefix old (c # s) \<Longrightarrow> old \<noteq> [] \<Longrightarrow> c # s = old @ drop (length old - 1) s"
  by (cases old) (auto simp: prefix_def)

text \<open>No occurrence, no change.\<close>

lemma replace_from_noop: "\<not> sublist old s \<Longrightarrow> replace_from old new s = s"
proof (induction s)
  case Nil
  then show ?case by simp
next
  case (Cons c s)
  from Cons.prems have "\<not> prefix old (c # s)" "\<not> sublist old s"
    by (auto simp: sublist_Cons_right)
  with Cons.IH show ?case by simp
qed

lemma replace_from_changes:
  assumes "old \<noteq> []" "sublist old s"
  shows "sublist new (replace_from old new s)"
  using assms
proof (induction old new s rule: replace_from.induct)
  case (1 old new)
  then show ?case by simp
next
  case (2 old new c s)
  show ?case
  proof (cases "prefix old (c # s)")
    case True
    then show ?thesis by simp
  next
    case False
    with "2.prems" have "sublist old s" by (simp add: sublist_Cons_right)
    with False "2.IH"(2) "2.prems"(1) have "sublist new (replace_from old new s)" by simp
    with False show ?thesis by (simp add: sublist_Cons_right)
  qed
qed

text \<open>A prefix of the output that cannot meet a replacement was a prefix of the input.\<close>

lemma prefix_replace_fromD:
  assumes "\<not> sublist new q" "\<not> overlap q new" "prefix q (replace_from old new s)"
  shows "prefix q s"
  using assms
proof (induction s arbitrary: q)
  case Nil
  then show ?case by simp
next
  case (Cons c s)
  show ?case
  proof (cases "prefix old (c # s)")
    case True
    with Cons.prems(3) have "prefix q (new @ replace_from old new (drop (length old - 1) s))"
      by simp
    then consider "prefix q new" | us where "q = new @ us"
      by (auto simp: prefix_append)
    then have "q = []"
    proof cases
      case 1
      with Cons.prems(2) show ?thesis by (auto simp: overlap_iff)
    next
      case 2
      with Cons.prems(1) show ?thesis by simp
    qed
    then show ?thesis by simp
  next
    case False
    with Cons.prems(3) have pq: "prefix q (c # replace_from old new s)" by simp
    show ?thesis
    proof (cases q)
      case Nil
      then show ?thesis by simp
    next
      case (Cons d q')
      with pq have d: "d = c" and p': "prefix q' (replace_from old new s)" by simp_all
      from Cons Cons.prems(1) have 1: "\<not> sublist new q'" by (auto simp: sublist_Cons_right)
      from Cons Cons.prems(2) have 2: "\<not> overlap q' new" by simp
      from Cons.IH[OF 1 2 p'] Cons d show ?thesis by simp
    qed
  qed
qed

text \<open>
  After the replacement a pattern \<open>p\<close> that cannot meet \<open>new\<close> occurs nowhere,
  provided that \<open>p\<close> occurred in the input only where \<open>old\<close> did.
\<close>

lemma replace_from_removes:
  assumes "old \<noteq> []" "apart p new"
    and "\<And>t. suffix t s \<Longrightarrow> prefix p t \<Longrightarrow> prefix old t"
  shows "\<not> sublist p (replace_from old new s)"
  using assms
proof (induction old new s rule: replace_from.induct)
  case (1 old new)
  then show ?case by (auto simp: apart_def)
next
  case (2 old new c s)
  from "2.prems"(2) have c1: "\<not> sublist new p" and c2: "\<not> overlap p new"
    and c3: "\<not> sublist p new" and c4: "\<not> overlap new p"
    by (auto simp: apart_def)
  show ?case
  proof (cases "prefix old (c # s)")
    case True
    let ?d = "drop (length old - 1) s"
    have "suffix ?d (c # s)"
      by (meson suffix_ConsI suffix_drop)
    then have H: "\<And>t. suffix t ?d \<Longrightarrow> prefix p t \<Longrightarrow> prefix old t"
      using "2.prems"(3) suffix_order.trans by blast
    have IH: "\<not> sublist p (replace_from old new ?d)"
      by (rule "2.IH"(1)[OF True "2.prems"(1,2) H])
    have "\<not> sublist p (new @ replace_from old new ?d)"
    proof
      assume "sublist p (new @ replace_from old new ?d)"
      with c3 IH obtain p1 p2 where p: "p = p1 @ p2" "suffix p1 new"
        "prefix p2 (replace_from old new ?d)"
        by (auto simp: sublist_append)
      show False
      proof (cases "p1 = []")
        case True
        with p IH show False by auto
      next
        case False
        with p c4 show False by (auto simp: overlap_iff)
      qed
    qed
    with True show ?thesis by simp
  next
    case False
    have H: "\<And>t. suffix t s \<Longrightarrow> prefix p t \<Longrightarrow> prefix old t"
      using "2.prems"(3) by (simp add: suffix_ConsI)
    have IH: "\<not> sublist p (replace_from old new s)"
      by (rule "2.IH"(2)[OF False "2.prems"(1,2) H])
    have "\<not> prefix p (replace_from old new (c # s))"
    proof
      assume "prefix p (replace_from old new (c # s))"
      from prefix_replace_fromD[OF c1 c2 this] have "prefix p (c # s)" .
      with "2.prems"(3)[of "c # s"] False show False by simp
    qed
    with False IH show ?thesis by (simp add: sublist_Cons_right)
  qed
qed

lemma replace_from_removes_old:
  "old \<noteq> [] \<Longrightarrow> apart old new \<Longrightarrow> \<not> sublist old (replace_from old new s)"
  by (rule replace_from_removes)

lemma replace_from_keeps_absent:
  assumes "old \<noteq> []" "apart p new" "\<not> sublist p s"
  shows "\<not> sublist p (replace_from old new s)"
proof (rule replace_from_removes[OF assms(1,2)])
  fix t assume "suffix t s" "prefix p t"
  then have "sublist p s"
    by (auto simp: sublist_def prefix_def suffix_def)
  with assms(3) show "prefix old t" by simp
qed

text \<open>
  A block that no occurrence of \<open>old\<close> can meet is a barrier: the scan copies it
  unchanged, and what is before it and after it is replaced independently.
\<close>

lemma replace_from_through:
  assumes "\<not> sublist old q" "\<not> overlap q old"
  shows "replace_from old new (q @ suf) = q @ replace_from old new suf"
  using assms
proof (induction q)
  case Nil
  then show ?case by simp
next
  case (Cons c q)
  have "\<not> prefix old ((c # q) @ suf)"
  proof
    assume "prefix old ((c # q) @ suf)"
    then consider "prefix old (c # q)" | us where "old = (c # q) @ us"
      unfolding prefix_append by blast
    then show False
    proof cases
      case 1
      with Cons.prems(1) show False by auto
    next
      case 2
      then have "prefix (c # q) old" by simp
      with Cons.prems(2) show False by simp
    qed
  qed
  moreover from Cons.prems have "\<not> sublist old q" "\<not> overlap q old"
    by (auto simp: sublist_Cons_right)
  ultimately show ?case using Cons.IH by simp
qed

lemma replace_from_barrier:
  assumes "old \<noteq> []" "apart old q"
  shows "replace_from old new (pre @ q @ suf) =
         replace_from old new pre @ q @ replace_from old new suf"
  using assms
proof (induction old new pre rule: replace_from.induct)
  case (1 old new)
  then show ?case by (simp add: replace_from_through apart_def)
next
  case (2 old new c s)
  from "2.prems"(2) have a: "\<not> sublist q old" "\<not> overlap old q"
    by (auto simp: apart_def)
  show ?case
  proof (cases "prefix old (c # s)")
    case True
    let ?d = "drop (length old - 1) s"
    from True "2.prems"(1) have cs: "c # s = old @ ?d" by (rule drop_hit)
    have "replace_from old new ((c # s) @ q @ suf) = new @ replace_from old new (?d @ q @ suf)"
      using replace_from_hit[OF "2.prems"(1), of new "?d @ q @ suf"] cs by simp
    also have "\<dots> = new @ replace_from old new ?d @ q @ replace_from old new suf"
      using "2.IH"(1)[OF True "2.prems"] by simp
    also have "\<dots> = replace_from old new (c # s) @ q @ replace_from old new suf"
      using True by simp
    finally show ?thesis .
  next
    case False
    have "\<not> prefix old (c # (s @ q @ suf))"
    proof
      assume "prefix old (c # (s @ q @ suf))"
      then have "prefix old ((c # s) @ (q @ suf))" by simp
      with False obtain us where us: "old = (c # s) @ us" "prefix us (q @ suf)"
        unfolding prefix_append by blast
      from us(2) consider "prefix us q" | vs where "us = q @ vs"
        by (auto simp: prefix_append)
      then show False
      proof cases
        case 1
        show False
        proof (cases "us = []")
          case True
          with us(1) False show False by simp
        next
          case False
          have "suffix us old" using us(1) by (simp add: suffix_def)
          with False 1 a(2) show False by (auto simp: overlap_iff)
        qed
      next
        case 2
        with us(1) have "old = (c # s) @ q @ vs" by simp
        then have "sublist q old" unfolding sublist_def by blast
        with a(1) show False by simp
      qed
    qed
    then have "replace_from old new ((c # s) @ q @ suf) =
               c # replace_from old new (s @ q @ suf)" by simp
    with False "2.IH"(2)[OF False "2.prems"] show ?thesis by simp
  qed
qed

subsection \<open>What replacement keeps, and where it replaces\<close>

lemma replace_nonempty: "old \<noteq> [] \<Longrightarrow> replace s old new = replace_from old new s"
  by (simp add: replace_def)

lemma set_replace_from: "set (replace_from old new s) \<subseteq> set s \<union> set new"
proof (induction old new s rule: replace_from.induct)
  case (1 old new)
  then show ?case by simp
next
  case (2 old new c s)
  have "set (drop (length old - 1) s) \<subseteq> set s" by (rule set_drop_subset)
  with 2 show ?case by (auto split: if_splits)
qed

lemma set_replace: "set (replace s old new) \<subseteq> set s \<union> set new"
proof (cases "old = []")
  case True
  then show ?thesis by (auto simp: replace_def)
next
  case False
  then show ?thesis using set_replace_from[of old new s] by (simp add: replace_def)
qed

lemma list_all_replace:
  "list_all P s \<Longrightarrow> list_all P new \<Longrightarrow> list_all P (replace s old new)"
  using set_replace[of s old new] by (auto simp: list_all_iff)

text \<open>Every occurrence is replaced: the text between the occurrences stays, each
  occurrence becomes the replacement.\<close>

lemma replace_from_gap:
  assumes "old \<noteq> []" "\<not> sublist old (g @ butlast old)"
  shows "replace_from old new (g @ old @ rest) = g @ new @ replace_from old new rest"
  using assms(2)
proof (induction g)
  case Nil
  with assms(1) show ?case by (simp add: replace_from_hit)
next
  case (Cons c g)
  have "\<not> prefix old ((c # g) @ old @ rest)"
  proof
    assume p: "prefix old ((c # g) @ old @ rest)"
    from assms(1) obtain m where m: "length old = Suc m" by (cases old) auto
    have "take (length old) ((c # g) @ old @ rest) = take (length old) ((c # g) @ butlast old)"
      unfolding m by (simp add: butlast_conv_take m min_def)
    with p have "prefix old ((c # g) @ butlast old)"
      by (metis prefix_def append_eq_conv_conj append_take_drop_id)
    with Cons.prems show False by auto
  qed
  moreover from Cons.prems have "\<not> sublist old (g @ butlast old)"
    by (auto simp: sublist_Cons_right)
  ultimately show ?case using Cons.IH by simp
qed

lemma replace_from_join:
  assumes "old \<noteq> []"
  shows "(\<forall>g\<in>set gs. \<not> sublist old (g @ butlast old)) \<Longrightarrow>
         replace_from old new (join old gs) = join new gs"
proof (induction new gs rule: join.induct)
  case (1 sep)
  then show ?case by simp
next
  case (2 sep g)
  then have "\<not> sublist old g"
    by (auto simp: sublist_append)
  then show ?case by (simp add: replace_from_noop)
next
  case (3 sep g h gs)
  then show ?case using assms by (simp add: replace_from_gap)
qed

lemma border_free_gap:
  assumes "\<not> overlap (tl old) old" "\<not> sublist old g"
  shows "\<not> sublist old (g @ butlast old)"
proof
  assume "sublist old (g @ butlast old)"
  moreover have "\<not> sublist old (butlast old)"
    using assms(2) sublist_length_le[of old "butlast old"] by (cases old) auto
  ultimately obtain x1 x2 where x: "old = x1 @ x2" "suffix x1 g" "prefix x2 (butlast old)"
    using assms(2) by (auto simp: sublist_append)
  have "x1 \<noteq> []"
    using x(1,3) prefix_length_le[of old "butlast old"] assms(2) by (cases old) auto
  have "x2 \<noteq> []" using x(1,2) assms(2) by auto
  from \<open>x1 \<noteq> []\<close> x(1) have "suffix x2 (tl old)"
    by (cases x1) (auto simp: suffix_def)
  moreover from x(3) have "prefix x2 old"
    by (metis prefix_order.trans prefixeq_butlast)
  ultimately show False using assms(1) \<open>x2 \<noteq> []\<close> by (auto simp: overlap_iff)
qed

text \<open>
  A pattern that no proper part of itself both ends and begins is replaced wherever it
  occurs, and what is before and after the occurrence is replaced independently.
\<close>

lemma replace_from_at:
  assumes "old \<noteq> []" "\<not> overlap (tl old) old"
  shows "replace_from old new (pre @ old @ suf) =
         replace_from old new pre @ new @ replace_from old new suf"
  using assms
proof (induction old new pre rule: replace_from.induct)
  case (1 old new)
  then show ?case by (simp add: replace_from_hit)
next
  case (2 old new c s)
  show ?case
  proof (cases "prefix old (c # s)")
    case True
    let ?d = "drop (length old - 1) s"
    from True "2.prems"(1) have cs: "c # s = old @ ?d" by (rule drop_hit)
    have "replace_from old new ((c # s) @ old @ suf) =
        new @ replace_from old new (?d @ old @ suf)"
      using replace_from_hit[OF "2.prems"(1), of new "?d @ old @ suf"] cs by simp
    also have "\<dots> = new @ replace_from old new ?d @ new @ replace_from old new suf"
      using "2.IH"(1)[OF True "2.prems"] by simp
    also have "\<dots> = replace_from old new (c # s) @ new @ replace_from old new suf"
      using True by simp
    finally show ?thesis .
  next
    case False
    have "\<not> prefix old (c # (s @ old @ suf))"
    proof
      assume "prefix old (c # (s @ old @ suf))"
      then have "prefix old ((c # s) @ (old @ suf))" by simp
      with False obtain us where us: "old = (c # s) @ us" "prefix us (old @ suf)"
        unfolding prefix_append by blast
      have "length old = length ((c # s) @ us)" using us(1) by simp
      then have len: "length us < length old" by simp
      from us(2) have "prefix us old"
        using len by (auto simp: prefix_append)
      moreover have "suffix us (tl old)" using us(1) by (simp add: suffix_def)
      moreover have "us \<noteq> []" using us(1) False by auto
      ultimately show False using "2.prems"(2) by (auto simp: overlap_iff)
    qed
    then have "replace_from old new ((c # s) @ old @ suf) =
               c # replace_from old new (s @ old @ suf)" by simp
    with False "2.IH"(2)[OF False "2.prems"] show ?thesis by simp
  qed
qed

subsection \<open>A text as pieces between the occurrences\<close>

lemma split_from_nonempty: "split_from sep acc s \<noteq> []"
  by (induction sep acc s rule: split_from.induct) auto

lemma join_Cons: "gs \<noteq> [] \<Longrightarrow> join sep (g # gs) = g @ sep @ join sep gs"
  by (cases gs) auto

lemma join_split_from:
  "sep \<noteq> [] \<Longrightarrow> join sep (split_from sep acc s) = rev acc @ s"
proof (induction sep acc s rule: split_from.induct)
  case (1 sep acc)
  then show ?case by simp
next
  case (2 sep acc c s)
  show ?case
  proof (cases "prefix sep (c # s)")
    case True
    from True "2.prems" have cs: "c # s = sep @ drop (length sep - 1) s" by (rule drop_hit)
    from cs have "sep @ drop (length sep - Suc 0) s = c # s" by simp
    with True "2.IH"(1) "2.prems" show ?thesis
      by (simp add: join_Cons split_from_nonempty)
  next
    case False
    with "2.IH"(2) "2.prems" show ?thesis by simp
  qed
qed

lemma replace_from_split_from:
  "sep \<noteq> [] \<Longrightarrow> join new (split_from sep acc s) = rev acc @ replace_from sep new s"
proof (induction sep acc s rule: split_from.induct)
  case (1 sep acc)
  then show ?case by simp
next
  case (2 sep acc c s)
  show ?case
  proof (cases "prefix sep (c # s)")
    case True
    with "2.IH"(1) "2.prems" show ?thesis
      by (simp add: join_Cons split_from_nonempty)
  next
    case False
    with "2.IH"(2) "2.prems" show ?thesis by simp
  qed
qed

lemma occurrence_in_front:
  assumes "sep \<noteq> []" "sublist sep a"
  shows "\<exists>i<length a. prefix sep (drop i (a @ s))"
proof -
  from assms(2) obtain ps ss where a: "a = ps @ sep @ ss" by (auto simp: sublist_def)
  with assms(1) have "length ps < length a" by simp
  moreover have "prefix sep (drop (length ps) (a @ s))" by (simp add: a)
  ultimately show ?thesis by blast
qed

lemma split_from_free:
  assumes "sep \<noteq> []" "\<And>i. i < length acc \<Longrightarrow> \<not> prefix sep (drop i (rev acc @ s))"
  shows "\<forall>g\<in>set (split_from sep acc s). \<not> sublist sep g"
  using assms
proof (induction sep acc s rule: split_from.induct)
  case (1 sep acc)
  then show ?case using occurrence_in_front[of sep "rev acc" "[]"] by auto
next
  case (2 sep acc c s)
  have front: "\<not> sublist sep (rev acc)"
    using occurrence_in_front[of sep "rev acc" "c # s"] "2.prems" by auto
  show ?case
  proof (cases "prefix sep (c # s)")
    case True
    have "\<forall>g\<in>set (split_from sep [] (drop (length sep - 1) s)). \<not> sublist sep g"
      by (rule "2.IH"(1)[OF True "2.prems"(1)]) simp
    with True front show ?thesis by simp
  next
    case False
    have "\<not> prefix sep (drop i (rev (c # acc) @ s))" if "i < length (c # acc)" for i
    proof (cases "i < length acc")
      case True
      with "2.prems"(2)[of i] show ?thesis by simp
    next
      case False
      with that have "i = length acc" by simp
      with \<open>\<not> prefix sep (c # s)\<close> show ?thesis by simp
    qed
    with "2.IH"(2)[OF False "2.prems"(1)] False show ?thesis by simp
  qed
qed

lemma pieces_join: "sep \<noteq> [] \<Longrightarrow> join sep (pieces s sep) = s"
  by (simp add: pieces_def join_split_from)

lemma pieces_free: "sep \<noteq> [] \<Longrightarrow> \<forall>g\<in>set (pieces s sep). \<not> sublist sep g"
  unfolding pieces_def by (rule split_from_free) simp_all

lemma pieces_replace: "sep \<noteq> [] \<Longrightarrow> replace s sep new = join new (pieces s sep)"
  by (simp add: pieces_def replace_from_split_from replace_def)

subsection \<open>Texts one character away from a pattern\<close>

lemma sublist_same_length: "sublist old b \<Longrightarrow> length b = length old \<Longrightarrow> b = old"
  by (auto simp: sublist_def)

lemma sublist_one_longer:
  assumes "sublist old b" "length b = Suc (length old)"
  shows "tl b = old \<or> butlast b = old"
proof -
  from assms(1) obtain ps ss where b: "b = ps @ old @ ss" by (auto simp: sublist_def)
  with assms(2) have "length ps + length ss = 1" by simp
  then consider "length ps = 1" "ss = []" | "ps = []" "length ss = 1"
    by (cases ps; cases ss) auto
  then show ?thesis
  proof cases
    case 1
    then obtain c where "ps = [c]" by (cases ps) auto
    with 1 b show ?thesis by simp
  next
    case 2
    then obtain c where "ss = [c]" by (cases ss) auto
    with 2 b show ?thesis by (simp add: butlast_append)
  qed
qed

section \<open>Properties of the codec\<close>

lemma unmask:
  fixes b :: nat
  assumes "k * m \<le> b" "b < k * m + m"
  shows "b mod m = b - k * m"
proof -
  define x where "x = b - k * m"
  have b: "b = x + k * m" and x: "x < m" using assms by (simp_all add: x_def)
  show ?thesis unfolding b using x by simp
qed

lemma cont_payload: "is_cont b \<Longrightarrow> b mod 0x40 = b - 0x80 \<and> b - 0x80 < 0x40 \<and> 0x80 + (b - 0x80) = b"
  using unmask[of 2 "0x40" b] by (auto simp: is_cont_def)

lemma pack_div: fixes y :: nat shows "y < m \<Longrightarrow> (x * m + y) div m = x"
  by simp

lemma pack_mod: fixes y :: nat shows "y < m \<Longrightarrow> (x * m + y) mod m = y"
  by simp

lemma enc2:
  assumes "0xC2 \<le> b0" "b0 < 0xE0" "is_cont b1"
  shows "utf8_encode_char (b0 mod 0x20 * 0x40 + b1 mod 0x40) = Some [b0, b1]"
proof -
  define x where "x = b0 - 0xC0"
  define y where "y = b1 - 0x80"
  have x: "b0 mod 0x20 = x" "2 \<le> x" "x < 0x20" "0xC0 + x = b0"
    using assms(1,2) unmask[of 6 "0x20" b0] by (simp_all add: x_def)
  have y: "b1 mod 0x40 = y" "y < 0x40" "0x80 + y = b1"
    using cont_payload[OF assms(3)] by (simp_all add: y_def)
  have d: "(x * 0x40 + y) div 0x40 = x" "(x * 0x40 + y) mod 0x40 = y"
    using y(2) by (simp_all only: pack_div pack_mod)
  have r: "\<not> x * 0x40 + y < 0x80" "x * 0x40 + y < 0x800"
    using x(2,3) y(2) by simp_all
  show ?thesis
    unfolding x(1) y(1) utf8_encode_char_def using d r x(4) y(3) by simp
qed

lemma enc3:
  assumes "0xE0 \<le> b0" "b0 < 0xF0" "is_cont b1" "is_cont b2"
    "\<not> (b0 = 0xE0 \<and> b1 < 0xA0)" "\<not> (b0 = 0xED \<and> 0xA0 \<le> b1)"
  shows "utf8_encode_char (b0 mod 0x10 * 0x1000 + b1 mod 0x40 * 0x40 + b2 mod 0x40)
         = Some [b0, b1, b2]"
proof -
  define x where "x = b0 - 0xE0"
  define y where "y = b1 - 0x80"
  define z where "z = b2 - 0x80"
  define c where "c = x * 0x1000 + y * 0x40 + z"
  have x: "b0 mod 0x10 = x" "x < 0x10" "0xE0 + x = b0"
    using assms(1,2) unmask[of 14 "0x10" b0] by (simp_all add: x_def)
  have y: "b1 mod 0x40 = y" "y < 0x40" "0x80 + y = b1"
    using cont_payload[OF assms(3)] by (simp_all add: y_def)
  have z: "b2 mod 0x40 = z" "z < 0x40" "0x80 + z = b2"
    using cont_payload[OF assms(4)] by (simp_all add: z_def)
  have excl: "\<not> (x = 0 \<and> y < 0x20)" "\<not> (x = 0xD \<and> 0x20 \<le> y)"
    using assms(5,6) x(3) y(3) by auto
  have c1: "c = (x * 0x40 + y) * 0x40 + z" and c2: "c = x * 0x1000 + (y * 0x40 + z)"
    by (simp_all add: c_def)
  have lo: "y * 0x40 + z < 0x1000" using y(2) z(2) by simp
  have d: "c div 0x1000 = x" "c div 0x40 mod 0x40 = y" "c mod 0x40 = z"
  proof -
    show "c div 0x1000 = x" unfolding c2 using lo by (rule pack_div)
    have "c div 0x40 = x * 0x40 + y" unfolding c1 using z(2) by (rule pack_div)
    then show "c div 0x40 mod 0x40 = y" using y(2) by (simp only: pack_mod)
    show "c mod 0x40 = z" unfolding c1 using z(2) by (rule pack_mod)
  qed
  have r: "\<not> c < 0x800" "c < 0x10000"
    using excl x(2) y(2) z(2) unfolding c_def by linarith+
  have s: "\<not> (0xD800 \<le> c \<and> c < 0xE000)"
  proof -
    consider "x < 0xD" | "x = 0xD" "y < 0x20" | "0xD < x"
      using excl(2) by linarith
    then show ?thesis
      using y(2) z(2) unfolding c_def by cases linarith+
  qed
  show ?thesis
    unfolding x(1) y(1) z(1) c_def[symmetric] utf8_encode_char_def
    using d r s x(3) y(3) z(3) by simp
qed

lemma enc4:
  assumes "0xF0 \<le> b0" "b0 < 0xF5" "is_cont b1" "is_cont b2" "is_cont b3"
    "\<not> (b0 = 0xF0 \<and> b1 < 0x90)" "\<not> (b0 = 0xF4 \<and> 0x90 \<le> b1)"
  shows "utf8_encode_char
           (b0 mod 0x08 * 0x40000 + b1 mod 0x40 * 0x1000 + b2 mod 0x40 * 0x40 + b3 mod 0x40)
         = Some [b0, b1, b2, b3]"
proof -
  define x where "x = b0 - 0xF0"
  define y where "y = b1 - 0x80"
  define z where "z = b2 - 0x80"
  define u where "u = b3 - 0x80"
  define c where "c = x * 0x40000 + y * 0x1000 + z * 0x40 + u"
  have x: "b0 mod 0x08 = x" "x < 5" "0xF0 + x = b0"
    using assms(1,2) unmask[of 30 "0x08" b0] by (simp_all add: x_def)
  have y: "b1 mod 0x40 = y" "y < 0x40" "0x80 + y = b1"
    using cont_payload[OF assms(3)] by (simp_all add: y_def)
  have z: "b2 mod 0x40 = z" "z < 0x40" "0x80 + z = b2"
    using cont_payload[OF assms(4)] by (simp_all add: z_def)
  have u: "b3 mod 0x40 = u" "u < 0x40" "0x80 + u = b3"
    using cont_payload[OF assms(5)] by (simp_all add: u_def)
  have excl: "\<not> (x = 0 \<and> y < 0x10)" "\<not> (x = 4 \<and> 0x10 \<le> y)"
    using assms(6,7) x(3) y(3) by auto
  have c1: "c = ((x * 0x40 + y) * 0x40 + z) * 0x40 + u"
    and c2: "c = (x * 0x40 + y) * 0x1000 + (z * 0x40 + u)"
    and c3: "c = x * 0x40000 + (y * 0x1000 + z * 0x40 + u)"
    by (simp_all add: c_def)
  have lo2: "z * 0x40 + u < 0x1000" using z(2) u(2) by simp
  have lo3: "y * 0x1000 + z * 0x40 + u < 0x40000" using y(2) z(2) u(2) by simp
  have d: "c div 0x40000 = x" "c div 0x1000 mod 0x40 = y" "c div 0x40 mod 0x40 = z"
    "c mod 0x40 = u"
  proof -
    show "c div 0x40000 = x" unfolding c3 using lo3 by (rule pack_div)
    have "c div 0x1000 = x * 0x40 + y" unfolding c2 using lo2 by (rule pack_div)
    then show "c div 0x1000 mod 0x40 = y" using y(2) by (simp only: pack_mod)
    have "c div 0x40 = (x * 0x40 + y) * 0x40 + z" unfolding c1 using u(2) by (rule pack_div)
    then show "c div 0x40 mod 0x40 = z" using z(2) by (simp only: pack_mod)
    show "c mod 0x40 = u" unfolding c1 using u(2) by (rule pack_mod)
  qed
  have r: "\<not> c < 0x10000" "c < 0x110000"
    using excl x(2) y(2) z(2) u(2) unfolding c_def by linarith+
  show ?thesis
    unfolding x(1) y(1) z(1) u(1) c_def[symmetric] utf8_encode_char_def
    using d r x(3) y(3) z(3) u(3) by simp
qed

text \<open>Whatever the decoder accepts, the encoder gives back byte for byte.\<close>

lemma utf8_encode_decode: "utf8_decode bs = Some t \<Longrightarrow> utf8_encode t = Some bs"
proof (induction bs arbitrary: t rule: utf8_decode.induct)
  case 1
  then show ?case by simp
next
  case (2 b0 bs)
  consider (a) "b0 < 0x80" | (b) "0xC2 \<le> b0" "b0 < 0xE0" | (c) "0xE0 \<le> b0" "b0 < 0xF0"
    | (d) "0xF0 \<le> b0" "b0 < 0xF5" | (e) "0x80 \<le> b0" "b0 < 0xC2" | (f) "0xF5 \<le> b0"
    by linarith
  then show ?case
  proof cases
    case a
    with "2.prems" obtain t' where t': "utf8_decode bs = Some t'" "t = b0 # t'" by auto
    from "2.IH"(1)[OF a t'(1)] a t'(2) show ?thesis
      by (simp add: utf8_encode_char_def)
  next
    case b
    with "2.prems" obtain b1 r t' where
      p: "bs = b1 # r" "is_cont b1" "utf8_decode r = Some t'"
         "t = (b0 mod 0x20 * 0x40 + b1 mod 0x40) # t'"
      by (auto split: list.splits if_splits)
    from b have "\<not> b0 < 0x80" "\<not> b0 < 0xC2" by simp_all
    from "2.IH"(2)[OF this b(2) p(1,2,3)] have "utf8_encode t' = Some r" .
    with enc2[OF b p(2)] p show ?thesis by simp
  next
    case c
    with "2.prems" obtain b1 b2 r t' where
      p: "bs = b1 # b2 # r" "is_cont b1" "is_cont b2"
         "\<not> (b0 = 0xE0 \<and> b1 < 0xA0)" "\<not> (b0 = 0xED \<and> 0xA0 \<le> b1)"
         "utf8_decode r = Some t'"
         "t = (b0 mod 0x10 * 0x1000 + b1 mod 0x40 * 0x40 + b2 mod 0x40) # t'"
      by (auto split: list.splits if_splits)
    from c have n: "\<not> b0 < 0x80" "\<not> b0 < 0xC2" "\<not> b0 < 0xE0" by simp_all
    have "utf8_encode t' = Some r"
      using "2.IH"(3)[OF n c(2) p(1)] p by simp
    with enc3[OF c p(2,3,4,5)] p show ?thesis by simp
  next
    case d
    with "2.prems" obtain b1 b2 b3 r t' where
      p: "bs = b1 # b2 # b3 # r" "is_cont b1" "is_cont b2" "is_cont b3"
         "\<not> (b0 = 0xF0 \<and> b1 < 0x90)" "\<not> (b0 = 0xF4 \<and> 0x90 \<le> b1)"
         "utf8_decode r = Some t'"
         "t = (b0 mod 0x08 * 0x40000 + b1 mod 0x40 * 0x1000 + b2 mod 0x40 * 0x40
               + b3 mod 0x40) # t'"
      by (auto split: list.splits if_splits)
    from d have n: "\<not> b0 < 0x80" "\<not> b0 < 0xC2" "\<not> b0 < 0xE0" "\<not> b0 < 0xF0" by simp_all
    have "utf8_encode t' = Some r"
      using "2.IH"(4)[OF n d(2) p(1)] p by simp
    with enc4[OF d p(2,3,4,5,6)] p show ?thesis by simp
  next
    case e
    with "2.prems" show ?thesis by simp
  next
    case f
    with "2.prems" show ?thesis by simp
  qed
qed

lemma unpack2:
  fixes c :: nat
  shows "c div 0x40 * 0x40 + c mod 0x40 = c"
  by simp

lemma unpack3:
  fixes c :: nat
  shows "c div 0x1000 * 0x1000 + c div 0x40 mod 0x40 * 0x40 + c mod 0x40 = c"
proof -
  define q where "q = c div 0x40"
  define a where "a = q div 0x40"
  define b where "b = q mod 0x40"
  have q: "q = a * 0x40 + b" by (simp add: a_def b_def)
  have "c div 0x1000 = a"
    unfolding a_def q_def by (simp add: div_mult2_eq[symmetric])
  moreover have "a * 0x1000 + b * 0x40 = q * 0x40" unfolding q by simp
  moreover have "q * 0x40 + c mod 0x40 = c" by (simp add: q_def)
  ultimately show ?thesis unfolding q_def[symmetric] b_def[symmetric] by simp
qed

lemma unpack4:
  fixes c :: nat
  shows "c div 0x40000 * 0x40000 + c div 0x1000 mod 0x40 * 0x1000 + c div 0x40 mod 0x40 * 0x40
         + c mod 0x40 = c"
proof -
  define q where "q = c div 0x1000"
  define a where "a = q div 0x40"
  define b where "b = q mod 0x40"
  have q: "q = a * 0x40 + b" by (simp add: a_def b_def)
  have "c div 0x40000 = a"
    unfolding a_def q_def by (simp add: div_mult2_eq[symmetric])
  moreover have "a * 0x40000 + b * 0x1000 = q * 0x1000" unfolding q by simp
  ultimately have "c div 0x40000 * 0x40000 + c div 0x1000 mod 0x40 * 0x1000 =
      c div 0x1000 * 0x1000"
    unfolding q_def[symmetric] b_def[symmetric] by simp
  with unpack3[of c] show ?thesis by simp
qed

lemma cont_byte: fixes y :: nat shows "y < 0x40 \<Longrightarrow> is_cont (0x80 + y) \<and> (0x80 + y) mod 0x40 = y"
  using unmask[of 2 "0x40" "0x80 + y"] by (simp add: is_cont_def)

lemma div_lo: fixes c :: nat shows "k * n \<le> c \<Longrightarrow> 0 < n \<Longrightarrow> k \<le> c div n"
  using div_le_mono[of "k * n" c n] by simp

lemma div_hi: fixes c :: nat shows "c < k * n \<Longrightarrow> c div n < k"
  by (rule less_mult_imp_div_less)

lemma dec2:
  assumes "0x80 \<le> c" "c < 0x800"
  shows "utf8_decode ((0xC0 + c div 0x40) # (0x80 + c mod 0x40) # rest) =
         map_option ((#) c) (utf8_decode rest)"
proof -
  define x where "x = c div 0x40"
  define y where "y = c mod 0x40"
  have x: "2 \<le> x" "x < 0x20"
    using div_lo[of 2 "0x40" c] div_hi[of c "0x20" "0x40"] assms by (simp_all add: x_def)
  have y: "y < 0x40" by (simp add: y_def)
  have b0: "(0xC0 + x) mod 0x20 = x"
    using unmask[of 6 "0x20" "0xC0 + x"] x by simp
  note b1 = cont_byte[OF y]
  have c: "x * 0x40 + y = c" by (simp add: x_def y_def)
  show ?thesis
    unfolding x_def[symmetric] y_def[symmetric] using x b0 b1 c by simp
qed

lemma dec3:
  assumes "0x800 \<le> c" "c < 0x10000" "\<not> (0xD800 \<le> c \<and> c < 0xE000)"
  shows "utf8_decode ((0xE0 + c div 0x1000) # (0x80 + c div 0x40 mod 0x40) #
           (0x80 + c mod 0x40) # rest) =
         map_option ((#) c) (utf8_decode rest)"
proof -
  define x where "x = c div 0x1000"
  define y where "y = c div 0x40 mod 0x40"
  define z where "z = c mod 0x40"
  have c: "x * 0x1000 + y * 0x40 + z = c"
    unfolding x_def y_def z_def by (rule unpack3)
  have x: "x < 0x10"
    using div_hi[of c "0x10" "0x1000"] assms by (simp add: x_def)
  have y: "y < 0x40" and z: "z < 0x40" by (simp_all add: y_def z_def)
  have b0: "(0xE0 + x) mod 0x10 = x"
    using unmask[of 14 "0x10" "0xE0 + x"] x by simp
  note b1 = cont_byte[OF y]
  note b2 = cont_byte[OF z]
  have lo: "\<not> (x = 0 \<and> y < 0x20)"
    using c assms(1) z by linarith
  have hi: "\<not> (x = 0xD \<and> 0x20 \<le> y)"
    using c assms(3) y z by linarith
  show ?thesis
    unfolding x_def[symmetric] y_def[symmetric] z_def[symmetric]
    using x b0 b1 b2 c lo hi by simp
qed

lemma dec4:
  assumes "0x10000 \<le> c" "c < 0x110000"
  shows "utf8_decode ((0xF0 + c div 0x40000) # (0x80 + c div 0x1000 mod 0x40) #
           (0x80 + c div 0x40 mod 0x40) # (0x80 + c mod 0x40) # rest) =
         map_option ((#) c) (utf8_decode rest)"
proof -
  define x where "x = c div 0x40000"
  define y where "y = c div 0x1000 mod 0x40"
  define z where "z = c div 0x40 mod 0x40"
  define u where "u = c mod 0x40"
  have c: "x * 0x40000 + y * 0x1000 + z * 0x40 + u = c"
    unfolding x_def y_def z_def u_def by (rule unpack4)
  have x: "x < 5"
    using div_hi[of c 5 "0x40000"] assms by (simp add: x_def)
  have y: "y < 0x40" and z: "z < 0x40" and u: "u < 0x40"
    by (simp_all add: y_def z_def u_def)
  have b0: "(0xF0 + x) mod 0x08 = x"
    using unmask[of 30 "0x08" "0xF0 + x"] x by simp
  note b1 = cont_byte[OF y]
  note b2 = cont_byte[OF z]
  note b3 = cont_byte[OF u]
  have lo: "\<not> (x = 0 \<and> y < 0x10)"
    using c assms(1) z u by linarith
  have hi: "\<not> (x = 4 \<and> 0x10 \<le> y)"
    using c assms(2) by linarith
  show ?thesis
    unfolding x_def[symmetric] y_def[symmetric] z_def[symmetric] u_def[symmetric]
    using x b0 b1 b2 b3 c lo hi by simp
qed

text \<open>Whatever the encoder produces, the decoder reads back.\<close>

lemma utf8_decode_encode: "utf8_encode t = Some b \<Longrightarrow> utf8_decode b = Some t"
proof (induction t arbitrary: b)
  case Nil
  then show ?case by simp
next
  case (Cons c t)
  from Cons.prems obtain e r where e: "utf8_encode_char c = Some e"
    and r: "utf8_encode t = Some r" and b: "b = e @ r"
    by (auto split: option.splits)
  from Cons.IH[OF r] have d: "utf8_decode r = Some t" .
  consider "c < 0x80" | "0x80 \<le> c" "c < 0x800"
    | "0x800 \<le> c" "c < 0x10000" "\<not> (0xD800 \<le> c \<and> c < 0xE000)"
    | "0x10000 \<le> c" "c < 0x110000"
    using e by (auto simp: utf8_encode_char_def split: if_splits)
  then show ?case
  proof cases
    case 1
    with e b d show ?thesis by (auto simp: utf8_encode_char_def)
  next
    case 2
    with e have "e = [0xC0 + c div 0x40, 0x80 + c mod 0x40]"
      by (auto simp: utf8_encode_char_def)
    with b d dec2[OF 2, of r] show ?thesis by simp
  next
    case 3
    with e have "e = [0xE0 + c div 0x1000, 0x80 + c div 0x40 mod 0x40, 0x80 + c mod 0x40]"
      by (auto simp: utf8_encode_char_def)
    with b d dec3[OF 3, of r] show ?thesis by simp
  next
    case 4
    with e have "e = [0xF0 + c div 0x40000, 0x80 + c div 0x1000 mod 0x40,
        0x80 + c div 0x40 mod 0x40, 0x80 + c mod 0x40]"
      by (auto simp: utf8_encode_char_def)
    with b d dec4[OF 4, of r] show ?thesis by simp
  qed
qed

lemma encodable_iff:
  "encodable c \<longleftrightarrow> c < 0xD800 \<or> (0xE000 \<le> c \<and> c < 0x110000)"
  by (auto simp: encodable_def utf8_encode_char_def)

lemma utf8_encode_Some:
  "(\<exists>b. utf8_encode t = Some b) \<longleftrightarrow> list_all encodable t"
  by (induction t) (auto simp: encodable_def split: option.splits)

lemma utf8_decode_encodable:
  "utf8_decode bs = Some t \<Longrightarrow> list_all encodable t"
  using utf8_encode_decode utf8_encode_Some by blast

section \<open>Properties of the line-end translation\<close>

lemma nl_read_no_cr: "CR \<notin> set t \<Longrightarrow> nl_read t = t"
proof -
  assume a: "CR \<notin> set t"
  have 1: "\<not> sublist [CR, LF] t" using a set_mono_sublist[of "[CR, LF]" t] by auto
  have 2: "\<not> sublist [CR] t" using a set_mono_sublist[of "[CR]" t] by auto
  show ?thesis by (simp add: nl_read_def replace_def replace_from_noop 1 2)
qed

lemma crlf_round:
  "crlf_only t \<Longrightarrow>
     CR \<notin> set (replace_from [CR, LF] [LF] t) \<and>
     replace_from [LF] [CR, LF] (replace_from [CR, LF] [LF] t) = t"
  by (induction t rule: crlf_only.induct) (auto simp: CR_def LF_def)

lemma nl_round: "native_newlines pf t \<Longrightarrow> nl_write pf (nl_read t) = t"
proof (cases pf)
  case Posix
  assume "native_newlines pf t"
  with Posix show ?thesis by (simp add: nl_read_no_cr)
next
  case Windows
  assume "native_newlines pf t"
  with Windows have c: "crlf_only t" by simp
  let ?u = "replace_from [CR, LF] [LF] t"
  from crlf_round[OF c] have u: "CR \<notin> set ?u" "replace_from [LF] [CR, LF] ?u = t" by auto
  have "\<not> sublist [CR] ?u" using u(1) set_mono_sublist[of "[CR]" ?u] by auto
  then have "nl_read t = ?u" by (simp add: nl_read_def replace_def replace_from_noop)
  with Windows u(2) show ?thesis by (simp add: replace_def)
qed

section \<open>Facts about the four literals\<close>

lemmas pat_defs = old_notif_def new_notif_def old_close_def new_close_def asc_def

lemma old_notif_nonempty: "old_notif \<noteq> []"
  by (simp add: old_notif_def asc_def)

lemma old_close_nonempty: "old_close \<noteq> []"
  by (simp add: old_close_def asc_def)

lemma length_old_notif: "length old_notif = 227"
  by (simp add: old_notif_def asc_def)

lemma length_old_close: "length old_close = 397"
  by (simp add: old_close_def asc_def)

lemma apart_notif: "apart old_notif new_notif"
  unfolding apart_def by (simp add: pat_defs sublist_code)

lemma apart_close: "apart old_close new_close"
  unfolding apart_def by (simp add: pat_defs sublist_code)

lemma apart_notif_new_close: "apart old_notif new_close"
  unfolding apart_def by (simp add: pat_defs sublist_code)

lemma apart_close_new_notif: "apart old_close new_notif"
  unfolding apart_def by (simp add: pat_defs sublist_code)

lemma apart_notif_close: "apart old_notif old_close"
  unfolding apart_def by (simp add: pat_defs sublist_code)

lemma border_free_notif: "\<not> overlap (tl old_notif) old_notif"
  by (simp add: pat_defs)

lemma border_free_close: "\<not> overlap (tl old_close) old_close"
  by (simp add: pat_defs)

lemma encodable_new_notif: "list_all encodable new_notif"
  by (simp add: encodable_iff new_notif_def asc_def)

lemma encodable_new_close: "list_all encodable new_close"
  by (simp add: encodable_iff new_close_def asc_def)

section \<open>The effect of the two rules on a text\<close>

lemma fix1_from: "fix1 s = replace_from old_notif new_notif s"
  by (simp add: fix1_def replace_def old_notif_nonempty)

lemma fix2_from: "fix2 s = replace_from old_close new_close s"
  by (simp add: fix2_def replace_def old_close_nonempty)

lemma patch_unchanged:
  assumes "\<not> sublist old_notif T" "\<not> sublist old_close T"
  shows "patch T = T"
  using assms by (simp add: patch_def fix1_from fix2_from replace_from_noop)

lemma patch_short: "length T < 227 \<Longrightarrow> patch T = T"
proof (rule patch_unchanged)
  assume "length T < 227"
  then show "\<not> sublist old_notif T" "\<not> sublist old_close T"
    using sublist_length_le[of old_notif T] sublist_length_le[of old_close T]
    by (auto simp: length_old_notif length_old_close)
qed

lemma no_old_notif_patch: "\<not> sublist old_notif (patch T)"
  unfolding patch_def fix1_from fix2_from
  by (intro replace_from_keeps_absent old_close_nonempty apart_notif_new_close
      replace_from_removes_old old_notif_nonempty apart_notif)

lemma no_old_close_patch: "\<not> sublist old_close (patch T)"
  unfolding patch_def fix1_from fix2_from
  by (intro replace_from_removes_old old_close_nonempty apart_close)

lemma new_notif_patch:
  assumes "sublist old_notif T"
  shows "sublist new_notif (patch T)"
proof -
  have "sublist new_notif (fix1 T)"
    unfolding fix1_from using old_notif_nonempty assms by (rule replace_from_changes)
  then obtain ps ss where "fix1 T = ps @ new_notif @ ss" by (auto simp: sublist_def)
  then have "patch T = replace_from old_close new_close ps @ new_notif @
      replace_from old_close new_close ss"
    by (simp add: patch_def fix2_from
        replace_from_barrier[OF old_close_nonempty apart_close_new_notif])
  then show ?thesis by simp
qed

lemma new_close_patch:
  assumes "sublist old_close T"
  shows "sublist new_close (patch T)"
proof -
  from assms obtain ps ss where "T = ps @ old_close @ ss" by (auto simp: sublist_def)
  then have "fix1 T = replace_from old_notif new_notif ps @ old_close @
      replace_from old_notif new_notif ss"
    by (simp add: fix1_from replace_from_barrier[OF old_notif_nonempty apart_notif_close])
  then have "sublist old_close (fix1 T)" by simp
  then show ?thesis
    unfolding patch_def fix2_from[of "fix1 T"] using old_close_nonempty
    by (intro replace_from_changes)
qed

subsection \<open>The parts of the new blocks\<close>

lemma fragments_new_notif:
  \<open>new_notif =
     (asc ''            var message = action.ActionType switch'' @ NL @
      asc ''            {'' @ NL @
      asc ''                FileActionType.CopyUrl => "'' @ [0x1F517] @ asc '' URL copi'' @
      [0xE9] @ asc ''e",'' @ NL) @
     (copy_path_line @ NL @ copy_name_line @ NL @ compress_line @ NL @
      send_by_email_line @ NL @ new_delete_line) @
     (NL @ asc ''                _ => null'' @ NL @ asc ''            };'')\<close>
  by (simp add: new_notif_def copy_path_line_def copy_name_line_def compress_line_def
      send_by_email_line_def new_delete_line_def asc_def)

lemma sublist_inserted_lines:
  "sublist (copy_path_line @ NL @ copy_name_line @ NL @ compress_line @ NL @
            send_by_email_line @ NL @ new_delete_line) new_notif"
  by (subst fragments_new_notif) (rule sublist_appendI)

lemma fragments_new_close:
  \<open>new_close =
     (asc ''            // Fermer apr'' @ [0xE8] @ asc ''s les actions qui ouvrent quelque chose'' @
      NL) @
     new_condition @
     (NL @
      asc ''            {'' @ NL @
      asc ''                _indexingService.RecordUsage(result);'' @ NL @
      asc ''                RequestHide?.Invoke(this, EventArgs.Empty);'' @ NL @
      asc ''            }'' @ NL @
      asc ''        }'' @ NL) @
     else_branch @
     (NL @
      asc ''        '' @ NL @
      asc ''        ShowActionsPanel = false;'' @ NL @
      asc ''    }'')\<close>
  by (simp add: new_close_def new_condition_def else_branch_def asc_def)

lemma sublist_new_condition: "sublist new_condition new_close"
  by (subst fragments_new_close) (rule sublist_appendI)

lemma sublist_else_branch: "sublist else_branch new_close"
  by (subst fragments_new_close, subst append_assoc[symmetric], subst append_assoc[symmetric])
    (rule sublist_appendI)

lemma sublist_trans': "sublist a b \<Longrightarrow> sublist b c \<Longrightarrow> sublist a c"
proof -
  assume "sublist a b" "sublist b c"
  then obtain p1 s1 p2 s2 where "b = p1 @ a @ s1" "c = p2 @ b @ s2"
    by (auto simp: sublist_def)
  then have "c = (p2 @ p1) @ a @ (s1 @ s2)" by simp
  then show ?thesis unfolding sublist_def by blast
qed

section \<open>The run\<close>

lemma encodable_nl_read:
  assumes "list_all encodable t"
  shows "list_all encodable (nl_read t)"
proof -
  have "list_all encodable [LF]"
    by (simp add: encodable_iff LF_def)
  with assms show ?thesis unfolding nl_read_def by (intro list_all_replace)
qed

lemma encodable_nl_write:
  assumes "list_all encodable t"
  shows "list_all encodable (nl_write pf t)"
proof (cases pf)
  case Posix
  with assms show ?thesis by simp
next
  case Windows
  have "list_all encodable [CR, LF]"
    by (simp add: encodable_iff LF_def CR_def)
  with assms Windows show ?thesis by (simp add: list_all_replace)
qed

lemma encodable_patch:
  assumes "list_all encodable t"
  shows "list_all encodable (patch t)"
  unfolding patch_def fix1_def fix2_def
  using assms encodable_new_notif encodable_new_close by (intro list_all_replace)

lemma read_file_Inr:
  "read_file w = Inr T \<longleftrightarrow>
     (\<exists>b t. disk w = Some b \<and> utf8_sig_decode b = Some t \<and> T = nl_read t)"
  by (auto simp: read_file_def split: option.splits)

lemma run_after_read:
  assumes "read_file w = Inr T"
  shows "run pf w =
     (case write_file pf (patch T) w of Inl e \<Rightarrow> Inl e | Inr w' \<Rightarrow> Inr (print_done w'))"
  using assms by (simp add: run_def patch_def fix1_def fix2_def)

text \<open>Once the file has been read, the script cannot fail unless the file is not writable.\<close>

lemma run_ok:
  assumes "read_file w = Inr T" "writable w"
  shows "\<exists>b. utf8_sig_encode (nl_write pf (patch T)) = Some b \<and>
     run pf w = Inr (print_done (w\<lparr>disk := Some b, writes := writes w + 1\<rparr>))"
proof -
  from assms(1) obtain b t where t: "utf8_sig_decode b = Some t" "T = nl_read t"
    by (auto simp: read_file_Inr)
  then have "list_all encodable t"
    by (auto simp: utf8_sig_decode_def intro: utf8_decode_encodable split: if_splits)
  then have "list_all encodable (nl_write pf (patch T))"
    unfolding t(2) by (intro encodable_nl_write encodable_patch encodable_nl_read)
  then obtain e where "utf8_encode (nl_write pf (patch T)) = Some e"
    using utf8_encode_Some by blast
  then have "utf8_sig_encode (nl_write pf (patch T)) = Some (BOM @ e)"
    by (simp add: utf8_sig_encode_def)
  then show ?thesis
    using assms(2) by (simp add: run_after_read[OF assms(1)] write_file_def)
qed

lemma run_Inr:
  assumes "run pf w = Inr w'"
  shows "\<exists>T b. read_file w = Inr T \<and> writable w \<and>
     utf8_sig_encode (nl_write pf (patch T)) = Some b \<and>
     w' = print_done (w\<lparr>disk := Some b, writes := writes w + 1\<rparr>)"
proof -
  from assms obtain T where T: "read_file w = Inr T"
    by (cases "read_file w") (auto simp: run_def)
  from assms have wr: "writable w"
    by (auto simp: run_after_read[OF T] write_file_def split: if_splits)
  from run_ok[OF T wr, of pf] assms T wr show ?thesis by auto
qed

lemma utf8_sig_decode_BOM: "utf8_sig_decode (BOM @ raw) = utf8_decode raw"
  by (simp add: utf8_sig_decode_def BOM_def)

lemma utf8_sig_encode_BOM: "utf8_sig_encode t = Some b \<Longrightarrow> \<exists>r. b = BOM @ r"
  by (auto simp: utf8_sig_encode_def)

lemma utf8_sig_decode_plain:
  assumes "\<not> prefix BOM b" "utf8_decode b = Some t"
  shows "utf8_sig_decode b = Some t"
proof (cases "length b < 3")
  case True
  have "t = []" if "prefix b BOM"
    using that True assms(2) by (auto simp: BOM_def prefix_Cons)
  with True assms(2) show ?thesis by (simp add: utf8_sig_decode_def)
next
  case False
  have "take 3 b \<noteq> BOM"
    using assms(1) take_is_prefix[of 3 b] by auto
  with False assms(2) show ?thesis by (simp add: utf8_sig_decode_def)
qed

text \<open>A file in UTF-8 with the platform's line ends and none of the two patterns comes back
  as it was, behind a byte-order mark.\<close>

lemma untouched_bytes:
  assumes "utf8_decode raw = Some t" "native_newlines pf t"
    "\<not> sublist old_notif (nl_read t)" "\<not> sublist old_close (nl_read t)"
  shows "utf8_sig_encode (nl_write pf (patch (nl_read t))) = Some (BOM @ raw)"
proof -
  have "patch (nl_read t) = nl_read t" using assms(3,4) by (rule patch_unchanged)
  then have "nl_write pf (patch (nl_read t)) = t" using assms(2) by (simp add: nl_round)
  then show ?thesis using utf8_encode_decode[OF assms(1)] by (simp add: utf8_sig_encode_def)
qed

lemma run_short:
  assumes "disk w = Some b" "utf8_sig_decode b = Some t" "length (nl_read t) < 227"
    "writable w" "utf8_encode (nl_write pf (nl_read t)) = Some e"
  shows "run pf w = Inr (print_done (w\<lparr>disk := Some (BOM @ e), writes := writes w + 1\<rparr>))"
proof -
  have r: "read_file w = Inr (nl_read t)" using assms(1,2) by (simp add: read_file_def)
  show ?thesis
    using assms(4,5)
    by (simp add: run_after_read[OF r] patch_short[OF assms(3)] write_file_def
        utf8_sig_encode_def)
qed

subsection \<open>Reading back what was written\<close>

lemma no_cr_replace_from: "CR \<notin> set (replace_from [CR] [LF] s)"
  by (induction s) (auto simp: CR_def LF_def)

lemma no_cr_nl_read: "CR \<notin> set (nl_read t)"
  by (simp add: nl_read_def replace_def[of _ "[CR]"] no_cr_replace_from)

lemma no_cr_new: "CR \<notin> set new_notif" "CR \<notin> set new_close"
  by (simp_all add: CR_def new_notif_def new_close_def asc_def)

lemma no_cr_patch: "CR \<notin> set T \<Longrightarrow> CR \<notin> set (patch T)"
  unfolding patch_def fix1_def fix2_def
  using set_replace[of T old_notif new_notif]
    set_replace[of "replace T old_notif new_notif" old_close new_close] no_cr_new
  by auto

lemma crlf_back:
  "CR \<notin> set s \<Longrightarrow> replace_from [CR, LF] [LF] (replace_from [LF] [CR, LF] s) = s"
  by (induction s) (auto simp: CR_def LF_def)

lemma nl_read_write: "CR \<notin> set s \<Longrightarrow> nl_read (nl_write pf s) = s"
proof (cases pf)
  case Posix
  assume "CR \<notin> set s"
  with Posix show ?thesis by (simp add: nl_read_no_cr)
next
  case Windows
  assume a: "CR \<notin> set s"
  then have "\<not> sublist [CR] s" using set_mono_sublist[of "[CR]" s] by auto
  with Windows crlf_back[OF a] show ?thesis
    by (simp add: nl_read_def replace_def replace_from_noop)
qed

text \<open>A file that holds a text without carriage returns, in UTF-8 behind a byte-order
  mark, is read as that text.\<close>

lemma read_encoded:
  assumes "disk w = utf8_sig_encode (nl_write pf s)" "list_all encodable s" "CR \<notin> set s"
  shows "read_file w = Inr s"
proof -
  from assms(2) have "list_all encodable (nl_write pf s)" by (rule encodable_nl_write)
  then obtain e where e: "utf8_encode (nl_write pf s) = Some e"
    using utf8_encode_Some by blast
  with assms(1) have "disk w = Some (BOM @ e)" by (simp add: utf8_sig_encode_def)
  moreover from e have "utf8_decode e = Some (nl_write pf s)" by (rule utf8_decode_encode)
  ultimately show ?thesis
    using assms(3) by (simp add: read_file_def utf8_sig_decode_BOM nl_read_write)
qed

lemma utf8_sig_decode_encodable: "utf8_sig_decode b = Some t \<Longrightarrow> list_all encodable t"
  by (auto simp: utf8_sig_decode_def intro: utf8_decode_encodable split: if_splits)

text \<open>After a run the file, read as the script reads it, holds the patched text.\<close>

lemma run_read_back:
  assumes "read_file w = Inr T" "writable w"
  shows "\<exists>w'. run pf w = Inr w' \<and> read_file w' = Inr (patch T) \<and> writable w' \<and>
     disk w' = utf8_sig_encode (nl_write pf (patch T)) \<and> writes w' = writes w + 1 \<and>
     stdout w' = stdout w @ asc ''ViewModel updated successfully'' @ NL"
proof -
  from run_ok[OF assms, of pf] obtain b where
    b: "utf8_sig_encode (nl_write pf (patch T)) = Some b" and
    r: "run pf w = Inr (print_done (w\<lparr>disk := Some b, writes := writes w + 1\<rparr>))"
    by blast
  let ?w' = "print_done (w\<lparr>disk := Some b, writes := writes w + 1\<rparr>)"
  from assms(1) obtain t where t: "list_all encodable t" "T = nl_read t"
    using utf8_sig_decode_encodable by (auto simp: read_file_Inr)
  have enc: "list_all encodable (patch T)"
    unfolding t(2) using t(1) by (intro encodable_patch encodable_nl_read)
  have cr: "CR \<notin> set (patch T)" unfolding t(2) by (intro no_cr_patch no_cr_nl_read)
  have d: "disk ?w' = utf8_sig_encode (nl_write pf (patch T))"
    by (simp add: b print_done_def)
  from read_encoded[OF d enc cr] r d assms(2) show ?thesis
    by (auto simp: print_done_def)
qed

text \<open>A second run leaves the file as the first run left it.\<close>

lemma second_run_changes_nothing:
  assumes "run pf w = Inr w'"
  shows "\<exists>w''. run pf w' = Inr w'' \<and> disk w'' = disk w'"
proof -
  from run_Inr[OF assms] obtain T where T: "read_file w = Inr T" "writable w" by blast
  from run_read_back[OF T, of pf] assms have
    1: "read_file w' = Inr (patch T)" "writable w'"
    "disk w' = utf8_sig_encode (nl_write pf (patch T))"
    by auto
  have "patch (patch T) = patch T"
    using patch_unchanged[OF no_old_notif_patch no_old_close_patch] .
  with run_read_back[OF 1(1,2), of pf] 1(3) show ?thesis by auto
qed

subsection \<open>Files with one of the blocks\<close>

lemma patch_old_notif: "patch old_notif = new_notif"
proof -
  have "fix1 old_notif = new_notif"
    using replace_from_hit[OF old_notif_nonempty, of new_notif "[]"] by (simp add: fix1_from)
  moreover have "\<not> sublist old_close new_notif"
    using apart_close_new_notif by (simp add: apart_def)
  ultimately show ?thesis by (simp add: patch_def fix2_from replace_from_noop)
qed

lemma patch_old_close: "patch old_close = new_close"
proof -
  have "\<not> sublist old_notif old_close"
    using apart_notif_close by (simp add: apart_def)
  then have "fix1 old_close = old_close" by (simp add: fix1_from replace_from_noop)
  then show ?thesis
    using replace_from_hit[OF old_close_nonempty, of new_close "[]"]
    by (simp add: patch_def fix2_from)
qed

lemma old_blocks_plain:
  "list_all encodable old_notif" "CR \<notin> set old_notif"
  "list_all encodable old_close" "CR \<notin> set old_close"
  "list_all encodable old_delete_line" "CR \<notin> set old_delete_line"
  by (simp_all add: encodable_iff CR_def old_notif_def old_close_def old_delete_line_def
      asc_def)

lemma set_delete_at: "set (delete_at i xs) \<subseteq> set xs"
  unfolding delete_at_def using set_take_subset[of i xs] set_drop_subset[of "Suc i" xs]
  by auto

lemma no_old_notif_in_variant: "\<not> sublist old_notif (delete_at 102 old_close)"
  by (simp add: delete_at_def old_notif_def old_close_def asc_def sublist_code)

lemma replace_short_notif: "length s < 227 \<Longrightarrow> replace s old_notif new_notif = s"
  using sublist_length_le[of old_notif s]
  by (auto simp: replace_nonempty old_notif_nonempty length_old_notif intro: replace_from_noop)

lemma replace_short_close: "length s < 397 \<Longrightarrow> replace s old_close new_close = s"
  using sublist_length_le[of old_close s]
  by (auto simp: replace_nonempty old_close_nonempty length_old_close intro: replace_from_noop)

text \<open>A text with both old blocks, one after the other, rule by rule.\<close>

lemma both_blocks_first_rule:
  "replace (old_notif @ old_close) old_notif new_notif = new_notif @ old_close"
proof -
  have "\<not> sublist old_notif old_close" using apart_notif_close by (simp add: apart_def)
  then have "replace_from old_notif new_notif old_close = old_close"
    by (rule replace_from_noop)
  with replace_from_at[OF old_notif_nonempty border_free_notif, of new_notif "[]" old_close]
  show ?thesis by (simp add: replace_nonempty old_notif_nonempty)
qed

lemma both_blocks_second_rule:
  "replace (new_notif @ old_close) old_close new_close = new_notif @ new_close"
proof -
  have "\<not> sublist old_close new_notif" using apart_close_new_notif by (simp add: apart_def)
  then have "replace_from old_close new_close new_notif = new_notif"
    by (rule replace_from_noop)
  with replace_from_at[OF old_close_nonempty border_free_close, of new_close new_notif "[]"]
  show ?thesis by (simp add: replace_nonempty old_close_nonempty)
qed

lemma length_new_notif: "length new_notif = 487"
  by (simp add: new_notif_def asc_def)

section \<open>The claims of the specification\<close>

text \<open>
  C1, as amended. Once the file has been read and can be written, the script overwrites
  it, exactly once, with the encoded text after both replacements, whether or not a
  pattern occurred. If neither pattern occurs in the text read, that text is unchanged.
\<close>

theorem write_is_unconditional:
  assumes "read_file w = Inr T" "writable w"
  shows "\<exists>w'. run pf w = Inr w' \<and> writes w' = writes w + 1 \<and>
     disk w' = utf8_sig_encode (nl_write pf (patch T)) \<and>
     (\<not> sublist old_notif T \<and> \<not> sublist old_close T \<longrightarrow> patch T = T)"
  using run_ok[OF assms, of pf] patch_unchanged[of T] by (auto simp: print_done_def)

theorem write_is_unconditional_witness:
  "read_file \<lparr>disk = Some [0x61], writable = True, writes = 0, stdout = []\<rparr> = Inr [0x61] \<and>
   patch [0x61] = [0x61] \<and>
   (\<exists>w'. run Posix \<lparr>disk = Some [0x61], writable = True, writes = 0, stdout = []\<rparr> = Inr w' \<and>
      writes w' = 1 \<and> disk w' = Some (BOM @ [0x61]))"
proof -
  let ?w = "\<lparr>disk = Some [0x61], writable = True, writes = 0, stdout = []\<rparr>"
  have r: "read_file ?w = Inr [0x61]"
    by (simp add: read_file_def utf8_sig_decode_def BOM_def nl_read_def replace_def
        CR_def LF_def)
  have p: "patch [0x61] = [0x61]" by (simp add: patch_short)
  from write_is_unconditional[OF r, of Posix] show ?thesis
    using r p by (simp add: utf8_sig_encode_def utf8_encode_char_def)
qed

text \<open>
  C1 as stated fails: the file holds the one letter \<^verbatim>\<open>a\<close>, neither pattern occurs in it,
  and the run overwrites it all the same (its bytes change: a byte-order mark is new).
\<close>

theorem no_write_counterexample:
  "\<not> sublist old_notif [0x61] \<and> \<not> sublist old_close [0x61] \<and>
   run Posix \<lparr>disk = Some [0x61], writable = True, writes = 0, stdout = []\<rparr> =
     Inr \<lparr>disk = Some (BOM @ [0x61]), writable = True, writes = 1,
          stdout = asc ''ViewModel updated successfully'' @ NL\<rparr>"
proof -
  let ?w = "\<lparr>disk = Some [0x61], writable = True, writes = 0, stdout = []\<rparr>"
  have "\<not> sublist old_notif [0x61]" "\<not> sublist old_close [0x61]"
    using sublist_length_le[of old_notif "[0x61]"] sublist_length_le[of old_close "[0x61]"]
    by (auto simp: length_old_notif length_old_close)
  moreover have "run Posix ?w = Inr (print_done (?w\<lparr>disk := Some (BOM @ [0x61]),
      writes := writes ?w + 1\<rparr>))"
    by (rule run_short[where b = "[0x61]" and t = "[0x61]"])
      (simp_all add: utf8_sig_decode_def BOM_def nl_read_def replace_def CR_def LF_def
        utf8_encode_char_def)
  ultimately show ?thesis by (simp add: print_done_def)
qed

text \<open>
  C2. Applying the two rules to an already patched text changes nothing, and neither
  pattern occurs in a patched text.
\<close>

theorem patch_idempotent:
  "patch (patch T) = patch T \<and> \<not> sublist old_notif (patch T) \<and> \<not> sublist old_close (patch T)"
  using patch_unchanged[OF no_old_notif_patch no_old_close_patch]
    no_old_notif_patch no_old_close_patch by blast

theorem patch_idempotent_witness:
  "patch (patch (old_notif @ old_close)) = patch (old_notif @ old_close)"
  using patch_idempotent[of "old_notif @ old_close"] by simp

text \<open>
  C3, as amended. If the text read from the file contains the whole block
  \<open>old_notif\<close>, then after the run the file, read again, holds a text that contains
  the lines for \<^verbatim>\<open>CopyPath\<close>, \<^verbatim>\<open>CopyName\<close>, \<^verbatim>\<open>Compress\<close> and
  \<^verbatim>\<open>SendByEmail\<close>, in this order, and right after them the new \<^verbatim>\<open>Delete\<close>
  line.
\<close>

theorem notif_scenario:
  assumes "read_file w = Inr T" "writable w" "sublist old_notif T"
  shows "\<exists>w'. run pf w = Inr w' \<and> read_file w' = Inr (patch T) \<and>
     sublist (copy_path_line @ NL @ copy_name_line @ NL @ compress_line @ NL @
              send_by_email_line @ NL @ new_delete_line) (patch T)"
proof -
  have "sublist (copy_path_line @ NL @ copy_name_line @ NL @ compress_line @ NL @
      send_by_email_line @ NL @ new_delete_line) (patch T)"
    using sublist_inserted_lines new_notif_patch[OF assms(3)] by (rule sublist_trans')
  with run_read_back[OF assms(1,2), of pf] show ?thesis by auto
qed

theorem notif_scenario_witness:
  "read_file \<lparr>disk = utf8_sig_encode (nl_write Windows old_notif), writable = True,
              writes = 0, stdout = []\<rparr> = Inr old_notif \<and>
   sublist old_notif old_notif \<and>
   (\<exists>w'. run Windows \<lparr>disk = utf8_sig_encode (nl_write Windows old_notif), writable = True,
                        writes = 0, stdout = []\<rparr> = Inr w' \<and>
      read_file w' = Inr new_notif) \<and>
   sublist (copy_path_line @ NL @ copy_name_line @ NL @ compress_line @ NL @
            send_by_email_line @ NL @ new_delete_line) new_notif"
proof -
  let ?w = "\<lparr>disk = utf8_sig_encode (nl_write Windows old_notif), writable = True,
              writes = 0, stdout = []\<rparr>"
  have r: "read_file ?w = Inr old_notif"
    by (rule read_encoded[where pf = Windows]) (simp_all add: old_blocks_plain)
  have h: "sublist old_notif old_notif" by simp
  from notif_scenario[OF r _ h, of Windows] r h show ?thesis
    by (auto simp: patch_old_notif)
qed

text \<open>
  C3 as stated fails: a file that holds the old \<^verbatim>\<open>Delete\<close> line and nothing else
  contains that exact block; the run leaves its bytes as they were, and the new
  \<^verbatim>\<open>Delete\<close> line is not in its text.
\<close>

theorem delete_line_alone_counterexample:
  "sublist old_delete_line old_delete_line \<and>
   run Posix \<lparr>disk = utf8_sig_encode old_delete_line, writable = True, writes = 0,
              stdout = []\<rparr>
     = Inr \<lparr>disk = utf8_sig_encode old_delete_line, writable = True, writes = 1,
            stdout = asc ''ViewModel updated successfully'' @ NL\<rparr> \<and>
   read_file \<lparr>disk = utf8_sig_encode old_delete_line, writable = True, writes = 1,
              stdout = asc ''ViewModel updated successfully'' @ NL\<rparr> = Inr old_delete_line \<and>
   \<not> sublist new_delete_line old_delete_line"
proof -
  let ?w = "\<lparr>disk = utf8_sig_encode old_delete_line, writable = True, writes = 0,
      stdout = []\<rparr>"
  let ?w' = "\<lparr>disk = utf8_sig_encode old_delete_line, writable = True, writes = 1,
      stdout = asc ''ViewModel updated successfully'' @ NL\<rparr>"
  have l: "length old_delete_line = 65" "length new_delete_line = 68"
    by (simp_all add: old_delete_line_def new_delete_line_def asc_def)
  have p: "patch old_delete_line = old_delete_line" by (rule patch_short) (simp add: l)
  have r: "read_file ?w = Inr old_delete_line"
    by (rule read_encoded[where pf = Posix]) (simp_all add: old_blocks_plain)
  have r': "read_file ?w' = Inr old_delete_line"
    by (rule read_encoded[where pf = Posix]) (simp_all add: old_blocks_plain)
  from run_read_back[OF r, of Posix] p have "run Posix ?w = Inr ?w'" by auto
  moreover have "\<not> sublist new_delete_line old_delete_line"
    using sublist_length_le[of new_delete_line old_delete_line] by (auto simp: l)
  ultimately show ?thesis using r' by simp
qed

text \<open>
  C4, as amended. If the text read from the file contains the whole block
  \<open>old_close\<close>, then after the run the file, read again, holds a text that contains
  \<open>new_close\<close>, and so the condition with the ten action types and the added
  \<^verbatim>\<open>else\<close> branch with the notification for \<^verbatim>\<open>OpenInVSCode\<close>.
\<close>

theorem close_scenario:
  assumes "read_file w = Inr T" "writable w" "sublist old_close T"
  shows "\<exists>w'. run pf w = Inr w' \<and> read_file w' = Inr (patch T) \<and>
     sublist new_close (patch T) \<and> sublist new_condition (patch T) \<and>
     sublist else_branch (patch T)"
proof -
  have "sublist new_close (patch T) \<and> sublist new_condition (patch T) \<and>
      sublist else_branch (patch T)"
    using new_close_patch[OF assms(3)] sublist_new_condition sublist_else_branch
    by (blast intro: sublist_trans')
  with run_read_back[OF assms(1,2), of pf] show ?thesis by auto
qed

theorem close_scenario_witness:
  "read_file \<lparr>disk = utf8_sig_encode (nl_write Windows old_close), writable = True,
              writes = 0, stdout = []\<rparr> = Inr old_close \<and>
   sublist old_close old_close \<and>
   (\<exists>w'. run Windows \<lparr>disk = utf8_sig_encode (nl_write Windows old_close), writable = True,
                        writes = 0, stdout = []\<rparr> = Inr w' \<and>
      read_file w' = Inr new_close) \<and>
   sublist new_condition new_close \<and> sublist else_branch new_close"
proof -
  let ?w = "\<lparr>disk = utf8_sig_encode (nl_write Windows old_close), writable = True,
              writes = 0, stdout = []\<rparr>"
  have r: "read_file ?w = Inr old_close"
    by (rule read_encoded[where pf = Windows]) (simp_all add: old_blocks_plain)
  have h: "sublist old_close old_close" by simp
  from close_scenario[OF r _ h, of Windows] r h show ?thesis
    by (auto simp: patch_old_close)
qed

text \<open>
  C4 as stated fails: in \<open>old_close\<close> the line of the condition that names
  \<^verbatim>\<open>Open\<close> ends with a space. A file that holds the block without this one space has a
  condition with the three action types only; the run leaves its bytes as they were,
  and the longer condition is not in its text.
\<close>

theorem trailing_space_counterexample:
  "old_close ! 102 = SPACE \<and> old_close ! 103 = LF \<and>
   run Posix \<lparr>disk = utf8_sig_encode (delete_at 102 old_close), writable = True, writes = 0,
              stdout = []\<rparr>
     = Inr \<lparr>disk = utf8_sig_encode (delete_at 102 old_close), writable = True, writes = 1,
            stdout = asc ''ViewModel updated successfully'' @ NL\<rparr> \<and>
   read_file \<lparr>disk = utf8_sig_encode (delete_at 102 old_close), writable = True, writes = 1,
              stdout = asc ''ViewModel updated successfully'' @ NL\<rparr>
     = Inr (delete_at 102 old_close) \<and>
   \<not> sublist new_condition (delete_at 102 old_close)"
proof -
  let ?T = "delete_at 102 old_close"
  let ?w = "\<lparr>disk = utf8_sig_encode ?T, writable = True, writes = 0, stdout = []\<rparr>"
  let ?w' = "\<lparr>disk = utf8_sig_encode ?T, writable = True, writes = 1,
      stdout = asc ''ViewModel updated successfully'' @ NL\<rparr>"
  have c: "old_close ! 102 = SPACE" "old_close ! 103 = LF"
    by (simp_all add: old_close_def asc_def SPACE_def LF_def)
  have l: "length ?T = 396" "length new_condition = 478"
    by (simp_all add: delete_at_def length_old_close new_condition_def asc_def)
  have "\<not> sublist old_close ?T"
    using sublist_length_le[of old_close ?T] by (auto simp: l length_old_close)
  with no_old_notif_in_variant have p: "patch ?T = ?T" by (rule patch_unchanged)
  have e: "list_all encodable ?T" "CR \<notin> set ?T"
    using set_delete_at[of 102 old_close] old_blocks_plain(3,4)
    by (auto simp: list_all_iff)
  have r: "read_file ?w = Inr ?T"
    by (rule read_encoded[where pf = Posix]) (simp_all add: e)
  have r': "read_file ?w' = Inr ?T"
    by (rule read_encoded[where pf = Posix]) (simp_all add: e)
  from run_read_back[OF r, of Posix] p have "run Posix ?w = Inr ?w'" by auto
  moreover have "\<not> sublist new_condition ?T"
    using sublist_length_le[of new_condition ?T] by (auto simp: l)
  ultimately show ?thesis using r' c by simp
qed

text \<open>
  C5. The text written, and read back from the file after the run, is the text read
  after the rule for the notifications and then, on its result, the rule for the
  close-after-action list. On a file with both old blocks the first rule leaves
  \<open>new_notif @ old_close\<close> and the second makes \<open>new_notif @ new_close\<close> of it.
\<close>

theorem rules_in_declared_order:
  assumes "read_file w = Inr T" "writable w"
  shows "\<exists>w'. run pf w = Inr w' \<and>
     disk w' = utf8_sig_encode
       (nl_write pf (replace (replace T old_notif new_notif) old_close new_close)) \<and>
     read_file w' = Inr (replace (replace T old_notif new_notif) old_close new_close)"
  using run_read_back[OF assms, of pf] by (auto simp: patch_def fix1_def fix2_def)

theorem rules_in_declared_order_witness:
  "read_file \<lparr>disk = utf8_sig_encode (nl_write Windows (old_notif @ old_close)),
              writable = True, writes = 0, stdout = []\<rparr> = Inr (old_notif @ old_close) \<and>
   replace (old_notif @ old_close) old_notif new_notif = new_notif @ old_close \<and>
   replace (new_notif @ old_close) old_close new_close = new_notif @ new_close \<and>
   (\<exists>w'. run Windows \<lparr>disk = utf8_sig_encode (nl_write Windows (old_notif @ old_close)),
                        writable = True, writes = 0, stdout = []\<rparr> = Inr w' \<and>
      disk w' = utf8_sig_encode (nl_write Windows (new_notif @ new_close)) \<and>
      read_file w' = Inr (new_notif @ new_close))"
proof -
  let ?w = "\<lparr>disk = utf8_sig_encode (nl_write Windows (old_notif @ old_close)),
              writable = True, writes = 0, stdout = []\<rparr>"
  have r: "read_file ?w = Inr (old_notif @ old_close)"
    by (rule read_encoded[where pf = Windows]) (simp_all add: old_blocks_plain)
  from rules_in_declared_order[OF r, of Windows] r
    both_blocks_first_rule both_blocks_second_rule
  show ?thesis by auto
qed

text \<open>
  C6. Wherever the pattern of a rule stands in a text, the rule puts its replacement
  there, and replaces what is before and what is after independently; after the rule no
  occurrence of its pattern is left. Said with the whole text: every text is its pieces
  without the pattern, joined by the pattern, and the rule gives the same pieces joined
  by the replacement. So each occurrence is replaced, however many there are.
\<close>

theorem every_occurrence_replaced:
  "replace (pre @ old_notif @ suf) old_notif new_notif =
     replace pre old_notif new_notif @ new_notif @ replace suf old_notif new_notif \<and>
   replace (pre @ old_close @ suf) old_close new_close =
     replace pre old_close new_close @ new_close @ replace suf old_close new_close \<and>
   \<not> sublist old_notif (replace T old_notif new_notif) \<and>
   \<not> sublist old_close (replace T old_close new_close) \<and>
   join old_notif (pieces T old_notif) = T \<and>
   (\<forall>g\<in>set (pieces T old_notif). \<not> sublist old_notif g) \<and>
   replace T old_notif new_notif = join new_notif (pieces T old_notif) \<and>
   join old_close (pieces T old_close) = T \<and>
   (\<forall>g\<in>set (pieces T old_close). \<not> sublist old_close g) \<and>
   replace T old_close new_close = join new_close (pieces T old_close)"
proof -
  note n = old_notif_nonempty and c = old_close_nonempty
  have 1: "replace (pre @ old_notif @ suf) old_notif new_notif =
      replace pre old_notif new_notif @ new_notif @ replace suf old_notif new_notif"
    by (simp add: replace_nonempty n replace_from_at[OF n border_free_notif])
  have 2: "replace (pre @ old_close @ suf) old_close new_close =
      replace pre old_close new_close @ new_close @ replace suf old_close new_close"
    by (simp add: replace_nonempty c replace_from_at[OF c border_free_close])
  have 3: "\<not> sublist old_notif (replace T old_notif new_notif)"
    by (simp add: replace_nonempty n replace_from_removes_old[OF n apart_notif])
  have 4: "\<not> sublist old_close (replace T old_close new_close)"
    by (simp add: replace_nonempty c replace_from_removes_old[OF c apart_close])
  from 1 2 3 4 pieces_join[OF n, of T] pieces_join[OF c, of T]
    pieces_free[OF n, of T] pieces_free[OF c, of T]
    pieces_replace[OF n, of T new_notif] pieces_replace[OF c, of T new_close]
  show ?thesis by blast
qed

theorem every_occurrence_replaced_witness:
  "replace ([0x61] @ old_notif @ old_notif @ [0x62]) old_notif new_notif =
     [0x61] @ new_notif @ new_notif @ [0x62] \<and>
   replace ([0x61] @ old_close @ old_close @ [0x62]) old_close new_close =
     [0x61] @ new_close @ new_close @ [0x62]"
proof -
  note a = every_occurrence_replaced[where pre = "[0x61]" and suf = "old_notif @ [0x62]"]
  note b = every_occurrence_replaced[where pre = "[]" and suf = "[0x62]"]
  note a' = every_occurrence_replaced[where pre = "[0x61]" and suf = "old_close @ [0x62]"]
  note b' = every_occurrence_replaced[where pre = "[]" and suf = "[0x62]"]
  from a have 1: "replace ([0x61] @ old_notif @ old_notif @ [0x62]) old_notif new_notif =
      replace [0x61] old_notif new_notif @ new_notif @
      replace (old_notif @ [0x62]) old_notif new_notif" by blast
  from b have 2: "replace ([] @ old_notif @ [0x62]) old_notif new_notif =
      replace [] old_notif new_notif @ new_notif @ replace [0x62] old_notif new_notif"
    by blast
  from a' have 3: "replace ([0x61] @ old_close @ old_close @ [0x62]) old_close new_close =
      replace [0x61] old_close new_close @ new_close @
      replace (old_close @ [0x62]) old_close new_close" by blast
  from b' have 4: "replace ([] @ old_close @ [0x62]) old_close new_close =
      replace [] old_close new_close @ new_close @ replace [0x62] old_close new_close"
    by blast
  from 1 2 3 4 show ?thesis
    by (simp add: replace_short_notif replace_short_close)
qed

text \<open>
  C7, as amended. A rule changes a text only where its exact pattern occurs. A text that
  is the pattern with one character substituted or deleted, or with one character
  inserted unless that leaves the whole pattern behind or before the new character, is
  left as it is.
\<close>

theorem exact_match_only:
  assumes "old \<noteq> []"
  shows "(\<not> sublist old T \<longrightarrow> replace T old new = T) \<and>
     (i < length old \<and> w \<noteq> old ! i \<longrightarrow> replace (old[i := w]) old new = old[i := w]) \<and>
     (i < length old \<longrightarrow> replace (delete_at i old) old new = delete_at i old) \<and>
     (i \<le> length old \<and> tl (insert_at i w old) \<noteq> old \<and> butlast (insert_at i w old) \<noteq> old
        \<longrightarrow> replace (insert_at i w old) old new = insert_at i w old)"
proof (intro conjI impI)
  note r = replace_nonempty[OF assms]
  show "replace T old new = T" if "\<not> sublist old T"
    using that by (simp add: r replace_from_noop)
  show "replace (old[i := w]) old new = old[i := w]" if "i < length old \<and> w \<noteq> old ! i"
  proof -
    have "old[i := w] \<noteq> old" using that by (metis nth_list_update_eq)
    then have "\<not> sublist old (old[i := w])"
      using sublist_same_length[of old "old[i := w]"] by auto
    then show ?thesis by (simp add: r replace_from_noop)
  qed
  show "replace (delete_at i old) old new = delete_at i old" if "i < length old"
  proof -
    have "length (delete_at i old) < length old"
      using that by (simp add: delete_at_def)
    then have "\<not> sublist old (delete_at i old)"
      using sublist_length_le[of old "delete_at i old"] by auto
    then show ?thesis by (simp add: r replace_from_noop)
  qed
  show "replace (insert_at i w old) old new = insert_at i w old"
    if "i \<le> length old \<and> tl (insert_at i w old) \<noteq> old \<and> butlast (insert_at i w old) \<noteq> old"
  proof -
    have "length (insert_at i w old) = Suc (length old)"
      using that by (simp add: insert_at_def)
    then have "\<not> sublist old (insert_at i w old)"
      using sublist_one_longer[of old "insert_at i w old"] that by auto
    then show ?thesis by (simp add: r replace_from_noop)
  qed
qed

theorem exact_match_only_witness:
  "old_notif \<noteq> [] \<and>
   replace (old_notif[0 := 0x09]) old_notif new_notif = old_notif[0 := 0x09] \<and>
   replace (delete_at 0 old_notif) old_notif new_notif = delete_at 0 old_notif \<and>
   replace (insert_at 13 SPACE old_notif) old_notif new_notif = insert_at 13 SPACE old_notif"
proof -
  have 1: "0 < length old_notif \<and> 0x09 \<noteq> old_notif ! 0"
    by (simp add: old_notif_def asc_def)
  have 2: "13 \<le> length old_notif \<and> tl (insert_at 13 SPACE old_notif) \<noteq> old_notif \<and>
      butlast (insert_at 13 SPACE old_notif) \<noteq> old_notif"
    by (simp add: insert_at_def old_notif_def asc_def SPACE_def)
  from exact_match_only[OF old_notif_nonempty, of _ new_notif 0 "0x09"]
    exact_match_only[OF old_notif_nonempty, of _ new_notif 13 SPACE] 1 2
  show ?thesis using old_notif_nonempty by simp
qed

text \<open>
  C7 as stated fails: the block \<open>old_notif\<close> with one more space in front differs from
  the pattern by one whitespace character, and the rule replaces it.
\<close>

theorem leading_space_counterexample:
  "insert_at 0 SPACE old_notif = SPACE # old_notif \<and>
   replace (SPACE # old_notif) old_notif new_notif = SPACE # new_notif \<and>
   SPACE # new_notif \<noteq> SPACE # old_notif"
proof -
  have "\<not> sublist old_notif [SPACE]"
    using sublist_length_le[of old_notif "[SPACE]"] by (auto simp: length_old_notif)
  then have "\<not> sublist old_notif ([SPACE] @ butlast old_notif)"
    by (rule border_free_gap[OF border_free_notif])
  from replace_from_gap[OF old_notif_nonempty this, of new_notif "[]"]
  have "replace (SPACE # old_notif) old_notif new_notif = SPACE # new_notif"
    by (simp add: replace_nonempty old_notif_nonempty)
  moreover have "new_notif \<noteq> old_notif"
    using length_new_notif length_old_notif by auto
  ultimately show ?thesis by (simp add: insert_at_def)
qed

text \<open>
  C8. If the file can be read, decoded and written, the run ends without an error,
  whatever the text, and prints the one line \<^verbatim>\<open>ViewModel updated successfully\<close>.
\<close>

theorem pattern_not_found_is_no_error:
  assumes "disk w = Some b" "utf8_sig_decode b = Some t" "writable w"
  shows "\<exists>w'. run pf w = Inr w' \<and>
     stdout w' = stdout w @ asc ''ViewModel updated successfully'' @ NL"
proof -
  have "read_file w = Inr (nl_read t)" using assms(1,2) by (simp add: read_file_def)
  from run_ok[OF this assms(3), of pf] show ?thesis by (auto simp: print_done_def)
qed

theorem pattern_not_found_is_no_error_witness:
  "utf8_sig_decode [0x61] = Some [0x61] \<and>
   (\<exists>w'. run Windows \<lparr>disk = Some [0x61], writable = True, writes = 0, stdout = []\<rparr> = Inr w' \<and>
      stdout w' = asc ''ViewModel updated successfully'' @ NL)"
proof -
  have d: "utf8_sig_decode [0x61] = Some [0x61]"
    by (simp add: utf8_sig_decode_def BOM_def)
  from pattern_not_found_is_no_error[of
      "\<lparr>disk = Some [0x61], writable = True, writes = 0, stdout = []\<rparr>" "[0x61]" "[0x61]" Windows]
    d show ?thesis by simp
qed

text \<open>
  C9, as amended. A file that begins with a byte-order mark, is valid UTF-8 after it,
  has the line ends of the platform only and contains neither pattern is written back
  byte for byte.
\<close>

theorem bom_round_trip:
  assumes "disk w = Some (BOM @ raw)" "utf8_decode raw = Some t" "native_newlines pf t"
    "\<not> sublist old_notif (nl_read t)" "\<not> sublist old_close (nl_read t)" "writable w"
  shows "\<exists>w'. run pf w = Inr w' \<and> disk w' = Some (BOM @ raw)"
proof -
  have "read_file w = Inr (nl_read t)"
    using assms(1,2) by (simp add: read_file_def utf8_sig_decode_BOM)
  from run_ok[OF this assms(6), of pf] untouched_bytes[OF assms(2,3,4,5)]
  show ?thesis by (auto simp: print_done_def)
qed

theorem bom_round_trip_witness:
  "utf8_decode [0x61, 0x0D, 0x0A] = Some [0x61, CR, LF] \<and>
   native_newlines Windows [0x61, CR, LF] \<and>
   \<not> sublist old_notif (nl_read [0x61, CR, LF]) \<and>
   \<not> sublist old_close (nl_read [0x61, CR, LF]) \<and>
   (\<exists>w'. run Windows \<lparr>disk = Some (BOM @ [0x61, 0x0D, 0x0A]), writable = True, writes = 0,
                        stdout = []\<rparr> = Inr w' \<and>
      disk w' = Some (BOM @ [0x61, 0x0D, 0x0A]))"
proof -
  let ?w = "\<lparr>disk = Some (BOM @ [0x61, 0x0D, 0x0A]), writable = True, writes = 0, stdout = []\<rparr>"
  have d: "utf8_decode [0x61, 0x0D, 0x0A] = Some [0x61, CR, LF]"
    by (simp add: CR_def LF_def)
  have n: "native_newlines Windows [0x61, CR, LF]" by (simp add: CR_def LF_def)
  have r: "nl_read [0x61, CR, LF] = [0x61, LF]"
    by (simp add: nl_read_def replace_def CR_def LF_def)
  have s: "\<not> sublist old_notif (nl_read [0x61, CR, LF])"
    "\<not> sublist old_close (nl_read [0x61, CR, LF])"
    using sublist_length_le[of old_notif "[0x61, LF]"] sublist_length_le[of old_close "[0x61, LF]"]
    by (auto simp: r length_old_notif length_old_close)
  from bom_round_trip[of ?w "[0x61, 0x0D, 0x0A]" "[0x61, CR, LF]" Windows, OF _ d n s]
  show ?thesis using d n s by simp
qed

text \<open>
  C9 as stated fails: a file that is a byte-order mark and one carriage return contains
  neither pattern, and comes back with another line end, on either platform.
\<close>

theorem lone_cr_counterexample:
  "run Posix \<lparr>disk = Some (BOM @ [0x0D]), writable = True, writes = 0, stdout = []\<rparr> =
     Inr \<lparr>disk = Some (BOM @ [0x0A]), writable = True, writes = 1,
          stdout = asc ''ViewModel updated successfully'' @ NL\<rparr> \<and>
   run Windows \<lparr>disk = Some (BOM @ [0x0D]), writable = True, writes = 0, stdout = []\<rparr> =
     Inr \<lparr>disk = Some (BOM @ [0x0D, 0x0A]), writable = True, writes = 1,
          stdout = asc ''ViewModel updated successfully'' @ NL\<rparr> \<and>
   \<not> sublist old_notif [0x0A] \<and> \<not> sublist old_close [0x0A]"
proof -
  let ?w = "\<lparr>disk = Some (BOM @ [0x0D]), writable = True, writes = 0, stdout = []\<rparr>"
  have r: "nl_read [0x0D] = [0x0A]"
    by (simp add: nl_read_def replace_def CR_def LF_def)
  have 1: "run Posix ?w = Inr (print_done (?w\<lparr>disk := Some (BOM @ [0x0A]),
      writes := writes ?w + 1\<rparr>))"
    by (rule run_short[where b = "BOM @ [0x0D]" and t = "[0x0D]"])
      (simp_all add: utf8_sig_decode_BOM r utf8_encode_char_def)
  have 2: "run Windows ?w = Inr (print_done (?w\<lparr>disk := Some (BOM @ [0x0D, 0x0A]),
      writes := writes ?w + 1\<rparr>))"
    by (rule run_short[where b = "BOM @ [0x0D]" and t = "[0x0D]"])
      (simp_all add: utf8_sig_decode_BOM r utf8_encode_char_def replace_def LF_def CR_def)
  have "\<not> sublist old_notif [0x0A]" "\<not> sublist old_close [0x0A]"
    using sublist_length_le[of old_notif "[0x0A]"] sublist_length_le[of old_close "[0x0A]"]
    by (auto simp: length_old_notif length_old_close)
  with 1 2 show ?thesis by (simp add: print_done_def)
qed

text \<open>
  C10, as amended. Whatever is written begins with a byte-order mark, so a file that did
  not begin with one is changed by every run that ends. If moreover the file is valid
  UTF-8 with the line ends of the platform only and contains neither pattern, the new
  bytes are the mark followed by the old bytes.
\<close>

theorem bom_always_written:
  assumes "disk w = Some b" "run pf w = Inr w'"
  shows "(\<exists>r. disk w' = Some (BOM @ r)) \<and>
     (\<not> prefix BOM b \<longrightarrow> disk w' \<noteq> Some b) \<and>
     (\<not> prefix BOM b \<and> utf8_decode b = Some t \<and> native_newlines pf t \<and>
      \<not> sublist old_notif (nl_read t) \<and> \<not> sublist old_close (nl_read t)
        \<longrightarrow> disk w' = Some (BOM @ b))"
proof -
  from run_Inr[OF assms(2)] obtain T e where
    T: "read_file w = Inr T" and e: "utf8_sig_encode (nl_write pf (patch T)) = Some e"
    and w': "w' = print_done (w\<lparr>disk := Some e, writes := writes w + 1\<rparr>)"
    by blast
  from utf8_sig_encode_BOM[OF e] obtain r where r: "e = BOM @ r" ..
  have d: "disk w' = Some (BOM @ r)" by (simp add: w' r print_done_def)
  have 1: "\<exists>r. disk w' = Some (BOM @ r)" using d by blast
  have 2: "\<not> prefix BOM b \<longrightarrow> disk w' \<noteq> Some b" using d by auto
  have 3: "disk w' = Some (BOM @ b)"
    if h: "\<not> prefix BOM b \<and> utf8_decode b = Some t \<and> native_newlines pf t \<and>
      \<not> sublist old_notif (nl_read t) \<and> \<not> sublist old_close (nl_read t)"
  proof -
    from h assms(1) have "read_file w = Inr (nl_read t)"
      by (simp add: read_file_def utf8_sig_decode_plain)
    with T have "T = nl_read t" by simp
    with e untouched_bytes[of b t pf] h have "e = BOM @ b" by simp
    then show ?thesis by (simp add: w' print_done_def)
  qed
  from 1 2 3 show ?thesis by blast
qed

theorem bom_always_written_witness:
  "run Posix \<lparr>disk = Some [0x61], writable = True, writes = 0, stdout = []\<rparr> =
     Inr \<lparr>disk = Some (BOM @ [0x61]), writable = True, writes = 1,
          stdout = asc ''ViewModel updated successfully'' @ NL\<rparr> \<and>
   \<not> prefix BOM [0x61] \<and> utf8_decode [0x61] = Some [0x61] \<and>
   native_newlines Posix [0x61] \<and>
   \<not> sublist old_notif (nl_read [0x61]) \<and> \<not> sublist old_close (nl_read [0x61]) \<and>
   Some (BOM @ [0x61]) \<noteq> Some [0x61]"
proof -
  let ?w = "\<lparr>disk = Some [0x61], writable = True, writes = 0, stdout = []\<rparr>"
  let ?w' = "\<lparr>disk = Some (BOM @ [0x61]), writable = True, writes = 1,
          stdout = asc ''ViewModel updated successfully'' @ NL\<rparr>"
  have r: "nl_read [0x61] = [0x61]"
    by (simp add: nl_read_def replace_def CR_def LF_def)
  have run: "run Posix ?w = Inr ?w'"
    using run_short[where w = ?w and b = "[0x61]" and t = "[0x61]" and pf = Posix
        and e = "[0x61]"]
    by (simp add: utf8_sig_decode_def BOM_def r utf8_encode_char_def print_done_def)
  have h: "\<not> prefix BOM [0x61]" "utf8_decode [0x61] = Some [0x61]"
    "native_newlines Posix [0x61]"
    by (simp_all add: BOM_def CR_def)
  have s: "\<not> sublist old_notif (nl_read [0x61])" "\<not> sublist old_close (nl_read [0x61])"
    using sublist_length_le[of old_notif "[0x61]"] sublist_length_le[of old_close "[0x61]"]
    by (auto simp: r length_old_notif length_old_close)
  from bom_always_written[of ?w "[0x61]" Posix ?w' "[0x61]", OF _ run]
  show ?thesis using run h s by simp
qed

text \<open>
  C10 as stated fails: a file that is one carriage return has no byte-order mark and
  neither pattern, and after the run it is the mark and a line feed, not the mark and
  the old byte.
\<close>

theorem prepended_bom_counterexample:
  "\<not> prefix BOM [0x0D] \<and>
   run Posix \<lparr>disk = Some [0x0D], writable = True, writes = 0, stdout = []\<rparr> =
     Inr \<lparr>disk = Some (BOM @ [0x0A]), writable = True, writes = 1,
          stdout = asc ''ViewModel updated successfully'' @ NL\<rparr> \<and>
   BOM @ [0x0A] \<noteq> BOM @ [0x0D]"
proof -
  let ?w = "\<lparr>disk = Some [0x0D], writable = True, writes = 0, stdout = []\<rparr>"
  have r: "nl_read [0x0D] = [0x0A]"
    by (simp add: nl_read_def replace_def CR_def LF_def)
  have "run Posix ?w = Inr (print_done (?w\<lparr>disk := Some (BOM @ [0x0A]),
      writes := writes ?w + 1\<rparr>))"
    by (rule run_short[where b = "[0x0D]" and t = "[0x0D]"])
      (simp_all add: utf8_sig_decode_def BOM_def r utf8_encode_char_def)
  then show ?thesis by (simp add: print_done_def BOM_def)
qed

end
